theory Spec2Isabelle
  imports Main "HOL-Library.Word" "HOL-Library.Signed_Division"
begin

unbundle bit_operations_syntax

chapter \<open>The logiCLK clock generator driver (clk-logiclk.c)\<close>

text \<open>
  A shallow embedding of the parameter synthesis and register encoding of
  \<^verbatim>\<open>drivers/clk/clk-logiclk.c\<close>. Machine integers are words of the width the
  source declares. \<^verbatim>\<open>long\<close> and \<^verbatim>\<open>unsigned long\<close> are taken as 32 bits wide (the
  32-bit ARM targets that carry the 7-series fabric); inside the validated
  parameter ranges a 64-bit \<^verbatim>\<open>long\<close> gives the same values.

  Operations whose C behaviour is undefined (a division by a stored divider
  that is zero, an array access outside its bounds) return \<open>None\<close>.
  Pointers of the structures (\<^verbatim>\<open>hw\<close>, \<^verbatim>\<open>dn\<close>, \<^verbatim>\<open>data\<close>, \<^verbatim>\<open>pdev\<close>, \<^verbatim>\<open>base\<close>) are not
  modelled: an output channel is addressed by its index in \<^verbatim>\<open>data->output\<close>, which is
  what \<^verbatim>\<open>to_logiclk_output(hw)\<close> and \<^verbatim>\<open>output->data\<close> amount to.
\<close>

section \<open>Types and constants\<close>

type_synonym u8 = "8 word"
type_synonym u32 = "32 word"
type_synonym u64 = "64 word"

definition LOGICLK_PLL_REG_OFF :: nat where
  "LOGICLK_PLL_REG_OFF = 1"

definition LOGICLK_MANUAL_REGS :: nat where
  "LOGICLK_MANUAL_REGS = 21"

definition MMCM_OUTPUT_FREQ_MIN :: u32 where
  "MMCM_OUTPUT_FREQ_MIN = 4690000"

definition MMCM_OUTPUT_FREQ_MAX :: u32 where
  "MMCM_OUTPUT_FREQ_MAX = 800000000"

definition MMCM_VCO_FREQ_MIN :: u64 where
  "MMCM_VCO_FREQ_MIN = 600000000"

definition MMCM_VCO_FREQ_MAX :: u64 where
  "MMCM_VCO_FREQ_MAX = 1600000000"

definition MMCM_PHASE_MAX :: u32 where
  "MMCM_PHASE_MAX = 360000"

definition MMCM_CLKOUT_DIVIDE_MIN :: nat where
  "MMCM_CLKOUT_DIVIDE_MIN = 1"

definition MMCM_CLKOUT_DIVIDE_MAX :: nat where
  "MMCM_CLKOUT_DIVIDE_MAX = 128"

definition MMCM_DIVCLK_DIVIDE_MIN :: nat where
  "MMCM_DIVCLK_DIVIDE_MIN = 1"

definition MMCM_DIVCLK_DIVIDE_MAX :: nat where
  "MMCM_DIVCLK_DIVIDE_MAX = 56"

definition MMCM_FBOUT_MULTIPLY_MIN :: nat where
  "MMCM_FBOUT_MULTIPLY_MIN = 2"

definition MMCM_FBOUT_MULTIPLY_MAX :: nat where
  "MMCM_FBOUT_MULTIPLY_MAX = 64"

definition LOGICLK_FRACTION_PRECISION :: u32 where
  "LOGICLK_FRACTION_PRECISION = 10"

definition LOGICLK_OUTPUTS :: nat where
  "LOGICLK_OUTPUTS = 6"

definition PLL_LOCK_TIME_INTERVALS :: nat where
  "PLL_LOCK_TIME_INTERVALS = 50"

definition EINVAL :: int where
  "EINVAL = 22"

definition EIO :: int where
  "EIO = 5"

text \<open>\<^verbatim>\<open>struct logiclk_input\<close>.\<close>

record logiclk_input =
  clk_freq :: u32
  clkfbout_mult :: u32
  clkfbout_phase :: u32
  divclk_divide :: u32
  bw_high :: bool

text \<open>\<^verbatim>\<open>struct logiclk_output\<close>; the field \<^verbatim>\<open>id\<close> is \<open>id_u8\<close> here.\<close>

record logiclk_output =
  clkout_freq :: u32
  clkout_divide :: u32
  clkout_duty :: u32
  clkout_phase :: u32
  id_u8 :: u8
  precise :: bool

text \<open>\<^verbatim>\<open>struct logiclk_data\<close>: \<open>output_arr\<close> (the array \<^verbatim>\<open>output\<close>) has \<^verbatim>\<open>LOGICLK_OUTPUTS\<close> entries,
  \<open>man_regs\<close> and \<open>man_regs_stack\<close> have \<^verbatim>\<open>LOGICLK_MANUAL_REGS\<close> entries.\<close>

record logiclk_data =
  input :: logiclk_input
  output_arr :: "logiclk_output list"
  output_stack :: logiclk_output
  man_regs :: "u32 list"
  man_regs_stack :: "u32 list"

section \<open>Kernel helpers used by the driver\<close>

text \<open>\<^verbatim>\<open>div_u64(dividend, divisor)\<close>: unsigned 64 by 32 bit division, meaningful for a
  non-zero divisor. Call sites whose divisor is a loop counter starting at 1 use it
  directly; call sites whose divisor is a stored field go through \<open>div_u64_chk\<close>.\<close>

definition div_u64 :: "u64 \<Rightarrow> u32 \<Rightarrow> u64" where
  "div_u64 dividend divisor = dividend div ucast divisor"

definition div_u64_chk :: "u64 \<Rightarrow> u32 \<Rightarrow> u64 option" where
  "div_u64_chk dividend divisor =
     (if divisor = 0 then None else Some (div_u64 dividend divisor))"

text \<open>\<^verbatim>\<open>abs64(x)\<close>: the argument is read as \<^verbatim>\<open>s64\<close> and negated when negative
  (two's complement, wrapping as the kernel is built).\<close>

definition abs64 :: "u64 \<Rightarrow> u64" where
  "abs64 x = (if sint x < 0 then - x else x)"

text \<open>Signed 32-bit division of C, truncating towards zero.\<close>

definition s32_div :: "u32 \<Rightarrow> u32 \<Rightarrow> u32" where
  "s32_div a b = word_of_int (sint a sdiv sint b)"

text \<open>Reading a C array: an index outside the array has no defined value.\<close>

definition array_read :: "'a list \<Rightarrow> nat \<Rightarrow> 'a option" where
  "array_read xs i = (if i < length xs then Some (xs ! i) else None)"

section \<open>Fixed-point helpers\<close>

text \<open>\<^verbatim>\<open>logiclk_get_bits\<close>: the mask \<^verbatim>\<open>(1 << (msb - lsb + 1)) - 1\<close> is computed in
  \<^verbatim>\<open>int\<close> and widened to 64 bits.\<close>

definition logiclk_get_bits :: "u64 \<Rightarrow> u32 \<Rightarrow> u32 \<Rightarrow> u32" where
  "logiclk_get_bits inp msb lsb =
     ucast (drop_bit (unat lsb) inp AND
            scast (push_bit (unat (msb - lsb + 1)) (1 :: u32) - 1))"

definition logiclk_round_fraction :: "u32 \<Rightarrow> u32 \<Rightarrow> u32" where
  "logiclk_round_fraction decimal precision =
     (let prec = push_bit (unat (LOGICLK_FRACTION_PRECISION - precision - 1)) (1 :: u32)
      in if decimal AND prec \<noteq> 0 then decimal + prec else decimal)"

section \<open>Divide, duty and phase encoders\<close>

text \<open>The four local variables of \<^verbatim>\<open>logiclk_pll_div\<close> at its \<^verbatim>\<open>return\<close>.\<close>

record div_fields =
  low_time :: u32
  high_time :: u32
  no_count :: u32
  edge :: u32

text \<open>The body of \<^verbatim>\<open>logiclk_pll_div\<close> up to the \<^verbatim>\<open>return\<close>. The parameter
  \<^verbatim>\<open>divide\<close> is \<open>divide_v\<close> throughout.\<close>

definition logiclk_pll_div_fields :: "u32 \<Rightarrow> u32 \<Rightarrow> div_fields" where
  "logiclk_pll_div_fields divide_v duty =
     (let duty_fix = push_bit (unat LOGICLK_FRACTION_PRECISION) duty div 100000 in
      if divide_v = 1 then \<lparr>low_time = 1, high_time = 1, no_count = 1, edge = 0\<rparr>
      else
        let temp = logiclk_round_fraction (duty_fix * divide_v) 1;
            edge0 = logiclk_get_bits (ucast temp) (LOGICLK_FRACTION_PRECISION - 1)
                      (LOGICLK_FRACTION_PRECISION - 1);
            high0 = logiclk_get_bits (ucast temp) (LOGICLK_FRACTION_PRECISION + 6)
                      LOGICLK_FRACTION_PRECISION;
            (edge1, high1) = (if high0 = 0 then (0, 1) else (edge0, high0));
            (edge2, high2) = (if high1 = divide_v then (1, divide_v - 1) else (edge1, high1))
        in \<lparr>low_time = divide_v - high2, high_time = high2, no_count = 0, edge = edge2\<rparr>)"

text \<open>The \<^verbatim>\<open>return\<close> expression of \<^verbatim>\<open>logiclk_pll_div\<close>.\<close>

definition pack_div_fields :: "div_fields \<Rightarrow> u32" where
  "pack_div_fields f =
     (low_time f AND 0x3F) OR push_bit 6 (high_time f AND 0x3F) OR
     push_bit 12 (no_count f AND 0x1) OR push_bit 13 (edge f AND 0x1)"

definition logiclk_pll_div :: "u32 \<Rightarrow> u32 \<Rightarrow> u32" where
  "logiclk_pll_div divide_v duty = pack_div_fields (logiclk_pll_div_fields divide_v duty)"

text \<open>\<^verbatim>\<open>logiclk_pll_phase\<close>: the parameter \<^verbatim>\<open>phase\<close> is an \<^verbatim>\<open>s32\<close>, held here as the
  word with the same bits.\<close>

definition logiclk_pll_phase :: "u32 \<Rightarrow> u32 \<Rightarrow> u32" where
  "logiclk_pll_phase divide_v phase =
     (let phase_fixed =
            (if sint phase < 0
             then s32_div (push_bit (unat LOGICLK_FRACTION_PRECISION)
                             (phase + MMCM_PHASE_MAX)) 1000
             else s32_div (push_bit (unat LOGICLK_FRACTION_PRECISION) phase) 1000);
          phase_cycles = (phase_fixed * divide_v) div (MMCM_PHASE_MAX div 1000);
          temp = logiclk_round_fraction phase_cycles 3;
          delay_time = logiclk_get_bits (ucast temp) (LOGICLK_FRACTION_PRECISION + 5)
                         LOGICLK_FRACTION_PRECISION;
          phase_mux = logiclk_get_bits (ucast temp) (LOGICLK_FRACTION_PRECISION - 1)
                         (LOGICLK_FRACTION_PRECISION - 3)
      in (delay_time AND 0x3F) OR push_bit 6 (phase_mux AND 0x7))"

definition logiclk_pll_count :: "u32 \<Rightarrow> u32 \<Rightarrow> u32 \<Rightarrow> u32" where
  "logiclk_pll_count divide_v duty phase =
     (let pll_div = logiclk_pll_div divide_v duty;
          pll_phase = logiclk_pll_phase divide_v phase
      in logiclk_get_bits (ucast pll_div) 11 0 OR
         push_bit 13 (logiclk_get_bits (ucast pll_phase) 8 6) OR
         push_bit 16 (logiclk_get_bits (ucast pll_phase) 5 0) OR
         push_bit 22 (logiclk_get_bits (ucast pll_div) 13 12) OR
         push_bit 24 (logiclk_get_bits (ucast pll_phase) 10 9))"

section \<open>Characterization tables\<close>

definition lut_high :: "u32 list" where
  "lut_high =
    [0x17C, 0x3FC, 0x3F4, 0x3E4, 0x3F8, 0x3C4, 0x3C4, 0x3D8,
     0x3E8, 0x3E8, 0x3E8, 0x3B0, 0x3F0, 0x3F0, 0x3F0, 0x3F0,
     0x3F0, 0x3F0, 0x3F0, 0x3F0, 0x3B0, 0x3B0, 0x3B0, 0x3E8,
     0x370, 0x308, 0x370, 0x370, 0x3E8, 0x3E8, 0x3E8, 0x1C8,
     0x330, 0x330, 0x3A8, 0x188, 0x188, 0x188, 0x1F0, 0x188,
     0x110, 0x110, 0x110, 0x110, 0x110, 0x110, 0xE0, 0xE0,
     0xE0, 0xE0, 0xE0, 0xE0, 0xE0, 0xE0, 0xE0, 0xE0,
     0xE0, 0xE0, 0xE0, 0xE0, 0xE0, 0xE0, 0xE0, 0xE0]"

definition lut_low :: "u32 list" where
  "lut_low =
    [0x5F, 0x57, 0x7B, 0x5B, 0x6B, 0x73, 0x73, 0x73,
     0x73, 0x4B, 0x4B, 0x4B, 0xB3, 0x53, 0x53, 0x53,
     0x53, 0x53, 0x53, 0x53, 0x53, 0x53, 0x53, 0x63,
     0x63, 0x63, 0x63, 0x63, 0x63, 0x63, 0x63, 0x63,
     0x63, 0x63, 0x63, 0x63, 0x63, 0x93, 0x93, 0x93,
     0x93, 0x93, 0x93, 0x93, 0x93, 0x93, 0x93, 0xA3,
     0xA3, 0xA3, 0xA3, 0xA3, 0xA3, 0xA3, 0xA3, 0xA3,
     0xA3, 0xA3, 0xA3, 0xA3, 0xA3, 0xA3, 0xA3, 0xA3]"

definition lut_lock :: "u64 list" where
  "lut_lock =
    [0x31BE8FA401, 0x31BE8FA401, 0x423E8FA401, 0x5AFE8FA401,
     0x73BE8FA401, 0x8C7E8FA401, 0x9CFE8FA401, 0xB5BE8FA401,
     0xCE7E8FA401, 0xE73E8FA401, 0xFFF84FA401, 0xFFF39FA401,
     0xFFEEEFA401, 0xFFEBCFA401, 0xFFE8AFA401, 0xFFE71FA401,
     0xFFE3FFA401, 0xFFE26FA401, 0xFFE0DFA401, 0xFFDF4FA401,
     0xFFDDBFA401, 0xFFDC2FA401, 0xFFDA9FA401, 0xFFD90FA401,
     0xFFD90FA401, 0xFFD77FA401, 0xFFD5EFA401, 0xFFD5EFA401,
     0xFFD45FA401, 0xFFD45FA401, 0xFFD2CFA401, 0xFFD2CFA401,
     0xFFD2CFA401, 0xFFD13FA401, 0xFFD13FA401, 0xFFD13FA401,
     0xFFCFAFA401, 0xFFCFAFA401, 0xFFCFAFA401, 0xFFCFAFA401,
     0xFFCFAFA401, 0xFFCFAFA401, 0xFFCFAFA401, 0xFFCFAFA401,
     0xFFCFAFA401, 0xFFCFAFA401, 0xFFCFAFA401, 0xFFCFAFA401,
     0xFFCFAFA401, 0xFFCFAFA401, 0xFFCFAFA401, 0xFFCFAFA401,
     0xFFCFAFA401, 0xFFCFAFA401, 0xFFCFAFA401, 0xFFCFAFA401,
     0xFFCFAFA401, 0xFFCFAFA401, 0xFFCFAFA401, 0xFFCFAFA401,
     0xFFCFAFA401, 0xFFCFAFA401, 0xFFCFAFA401, 0xFFCFAFA401]"

text \<open>\<^verbatim>\<open>logiclk_pll_lut_filter\<close> and \<^verbatim>\<open>logiclk_pll_lut_lock\<close> read entry
  \<^verbatim>\<open>divide - 1\<close>, computed in \<^verbatim>\<open>u32\<close>.\<close>

definition logiclk_pll_lut_filter :: "u32 \<Rightarrow> bool \<Rightarrow> u32 option" where
  "logiclk_pll_lut_filter divide_v bw =
     (if bw then array_read lut_high (unat (divide_v - 1))
      else array_read lut_low (unat (divide_v - 1)))"

definition logiclk_pll_lut_lock :: "u32 \<Rightarrow> u64 option" where
  "logiclk_pll_lut_lock divide_v = array_read lut_lock (unat (divide_v - 1))"

section \<open>Loops with an early return\<close>

text \<open>A \<^verbatim>\<open>for\<close> loop whose body may \<^verbatim>\<open>return\<close> from the enclosing function:
  \<open>Next\<close> carries the state into the next iteration, \<open>Return\<close> leaves every
  enclosing loop at once.\<close>

datatype 's ctl = Next 's | Return 's

fun ctl_state :: "'s ctl \<Rightarrow> 's" where
  "ctl_state (Next s) = s"
| "ctl_state (Return s) = s"

fun is_return :: "'s ctl \<Rightarrow> bool" where
  "is_return (Next s) = False"
| "is_return (Return s) = True"

fun for_loop :: "('i \<Rightarrow> 's \<Rightarrow> 's ctl) \<Rightarrow> 'i list \<Rightarrow> 's \<Rightarrow> 's ctl" where
  "for_loop body [] s = Next s"
| "for_loop body (i # rest) s =
     (case body i s of Return r \<Rightarrow> Return r | Next s' \<Rightarrow> for_loop body rest s')"

text \<open>The values a counter takes in \<^verbatim>\<open>for (c = lo; c <= hi; c++)\<close>.\<close>

definition counter_range :: "nat \<Rightarrow> nat \<Rightarrow> 'a::len word list" where
  "counter_range lo hi = map of_nat [lo..<Suc hi]"

section \<open>Frequency search\<close>

text \<open>The body of the innermost loop of \<^verbatim>\<open>logiclk_pll_input_mult_div\<close>. The state is
  the input stage being written and the local \<^verbatim>\<open>freq_err\<close>; the loop counter
  \<^verbatim>\<open>clkfbout_mult\<close> is a \<^verbatim>\<open>u64\<close> and is narrowed when stored.\<close>

definition input_mult_div_body ::
  "u64 \<Rightarrow> u64 \<Rightarrow> u32 \<Rightarrow> u64 \<Rightarrow> u32 \<Rightarrow> logiclk_input \<times> u64 \<Rightarrow> (logiclk_input \<times> u64) ctl" where
  "input_mult_div_body clk_freq_input freq_out divclk_div fbout_mult clkout_div s =
     (let vco_freq = div_u64 (clk_freq_input * fbout_mult) divclk_div in
      if vco_freq < MMCM_VCO_FREQ_MIN \<or> vco_freq > MMCM_VCO_FREQ_MAX then Next s
      else
        let out_freq = div_u64 vco_freq clkout_div;
            freq_err_new = abs64 (out_freq - freq_out)
        in if freq_err_new < snd s then
             (let inp' = (fst s)\<lparr>clkfbout_mult := ucast fbout_mult,
                                 divclk_divide := divclk_div\<rparr>
              in if freq_err_new = 0 then Return (inp', snd s)
                 else Next (inp', freq_err_new))
           else Next s)"

text \<open>The three nested loops of \<^verbatim>\<open>logiclk_pll_input_mult_div\<close>, entered with both
  fields cleared and \<^verbatim>\<open>freq_err = (u64)-1\<close>.\<close>

definition input_mult_div_loops :: "logiclk_input \<Rightarrow> logiclk_output \<Rightarrow> (logiclk_input \<times> u64) ctl" where
  "input_mult_div_loops inp outp =
     (let clk_freq_input = ucast (clk_freq inp);
          freq_out = ucast (clkout_freq outp)
      in for_loop
           (\<lambda>divclk_div.
              for_loop
                (\<lambda>fbout_mult.
                   for_loop (input_mult_div_body clk_freq_input freq_out divclk_div fbout_mult)
                     (counter_range MMCM_CLKOUT_DIVIDE_MIN MMCM_CLKOUT_DIVIDE_MAX))
                (counter_range MMCM_FBOUT_MULTIPLY_MIN MMCM_FBOUT_MULTIPLY_MAX))
           (counter_range MMCM_DIVCLK_DIVIDE_MIN MMCM_DIVCLK_DIVIDE_MAX)
           (inp\<lparr>clkfbout_mult := 0, divclk_divide := 0\<rparr>, - 1))"

text \<open>\<^verbatim>\<open>logiclk_pll_input_mult_div\<close>: the return code and the input stage it leaves.\<close>

definition logiclk_pll_input_mult_div :: "logiclk_input \<Rightarrow> logiclk_output \<Rightarrow> int \<times> logiclk_input" where
  "logiclk_pll_input_mult_div inp outp =
     (case input_mult_div_loops inp outp of
        Return s \<Rightarrow> (0, fst s)
      | Next s \<Rightarrow>
          if clkfbout_mult (fst s) = 0 \<or> divclk_divide (fst s) = 0 then (- EINVAL, fst s)
          else (0, fst s))"

text \<open>The loop body of \<^verbatim>\<open>logiclk_pll_output_div\<close>; the state is \<^verbatim>\<open>clkout_div\<close> and
  \<^verbatim>\<open>freq_err\<close>.\<close>

definition output_div_body :: "u64 \<Rightarrow> u64 \<Rightarrow> u32 \<Rightarrow> u32 \<times> u64 \<Rightarrow> (u32 \<times> u64) ctl" where
  "output_div_body freq_mult_div freq_out clkout_div s =
     (let freq = div_u64 freq_mult_div clkout_div;
          freq_err_new = abs64 (freq - freq_out)
      in if freq_err_new < snd s then
           (if freq_err_new = 0 then Return (clkout_div, snd s)
            else Next (clkout_div, freq_err_new))
         else Next s)"

definition logiclk_pll_output_div :: "logiclk_input \<Rightarrow> logiclk_output \<Rightarrow> u32 option" where
  "logiclk_pll_output_div inp outp =
     (let clk_freq_mult = ucast (clk_freq inp) * ucast (clkfbout_mult inp);
          freq_out = ucast (clkout_freq outp)
      in case div_u64_chk clk_freq_mult (divclk_divide inp) of
           None \<Rightarrow> None
         | Some freq_mult_div \<Rightarrow>
             Some (fst (ctl_state
               (for_loop (output_div_body freq_mult_div freq_out)
                  (counter_range MMCM_CLKOUT_DIVIDE_MIN MMCM_CLKOUT_DIVIDE_MAX)
                  (0, - 1)))))"

section \<open>Register packer\<close>

text \<open>Writing a C array of \<^verbatim>\<open>LOGICLK_MANUAL_REGS\<close> words: an index outside it has no
  defined effect.\<close>

definition reg_write :: "u32 list \<Rightarrow> nat \<Rightarrow> u32 \<Rightarrow> u32 list option" where
  "reg_write regs i v = (if i < LOGICLK_MANUAL_REGS then Some (regs[i := v]) else None)"

text \<open>\<^verbatim>\<open>logiclk_man_reg_params_id\<close>: the channel and the register image it leaves.\<close>

definition logiclk_man_reg_params_id ::
  "logiclk_input \<Rightarrow> logiclk_output \<Rightarrow> u32 \<Rightarrow> u32 list \<Rightarrow> (logiclk_output \<times> u32 list) option" where
  "logiclk_man_reg_params_id inp outp ident regs =
     (let clk_freq_mult = ucast (clk_freq inp) * ucast (clkfbout_mult inp) in
      case div_u64_chk clk_freq_mult (divclk_divide inp) of
        None \<Rightarrow> None
      | Some clk_freq_mult_div \<Rightarrow>
         (case logiclk_pll_output_div inp outp of
            None \<Rightarrow> None
          | Some od \<Rightarrow>
             (let outp1 = outp\<lparr>clkout_divide := od\<rparr>;
                  clkout = logiclk_pll_count (clkout_divide outp1) (clkout_duty outp1)
                             (clkout_phase outp1)
              in case reg_write regs (LOGICLK_PLL_REG_OFF + unat ident * 2)
                        (logiclk_get_bits (ucast clkout) 15 0) of
                   None \<Rightarrow> None
                 | Some regs1 \<Rightarrow>
                    (case reg_write regs1 ((LOGICLK_PLL_REG_OFF + 1) + unat ident * 2)
                            (logiclk_get_bits (ucast clkout) 31 16) of
                       None \<Rightarrow> None
                     | Some regs2 \<Rightarrow>
                        (case div_u64_chk clk_freq_mult_div (clkout_divide outp1) of
                           None \<Rightarrow> None
                         | Some f \<Rightarrow> Some (outp1\<lparr>clkout_freq := ucast f\<rparr>, regs2))))))"

text \<open>\<^verbatim>\<open>logiclk_man_reg_params\<close>: the register image it leaves. The table helpers are
  called with \<^verbatim>\<open>input->clkfbout_mult - 1\<close>.\<close>

definition logiclk_man_reg_params ::
  "logiclk_input \<Rightarrow> logiclk_output \<Rightarrow> u32 list \<Rightarrow> u32 list option" where
  "logiclk_man_reg_params inp outp regs =
     (let clkfbout = logiclk_pll_count (clkfbout_mult inp) (clkout_duty outp)
                       (clkfbout_phase inp);
          divclk = logiclk_pll_count (divclk_divide inp) (clkout_duty outp)
                     (clkout_phase outp)
      in case logiclk_pll_lut_filter (clkfbout_mult inp - 1) (bw_high inp) of
           None \<Rightarrow> None
         | Some filter_v \<Rightarrow>
            (case logiclk_pll_lut_lock (clkfbout_mult inp - 1) of
               None \<Rightarrow> None
             | Some lock \<Rightarrow>
                Some (regs
                  [0 := 0xFFFF,
                   13 := push_bit 12 (logiclk_get_bits (ucast divclk) 23 22) OR
                         push_bit 0 (logiclk_get_bits (ucast divclk) 11 0),
                   14 := logiclk_get_bits (ucast clkfbout) 15 0,
                   15 := logiclk_get_bits (ucast clkfbout) 31 16,
                   16 := logiclk_get_bits lock 29 20,
                   17 := push_bit 10 (logiclk_get_bits lock 34 30) OR
                         logiclk_get_bits lock 9 0,
                   18 := push_bit 10 (logiclk_get_bits lock 39 35) OR
                         logiclk_get_bits lock 19 10,
                   19 := push_bit 8 (logiclk_get_bits (ucast filter_v) 6 6) OR
                         push_bit 11 (logiclk_get_bits (ucast filter_v) 8 7) OR
                         push_bit 15 (logiclk_get_bits (ucast filter_v) 9 9),
                   20 := push_bit 4 (logiclk_get_bits (ucast filter_v) 0 0) OR
                         push_bit 7 (logiclk_get_bits (ucast filter_v) 2 1) OR
                         push_bit 11 (logiclk_get_bits (ucast filter_v) 4 3) OR
                         push_bit 15 (logiclk_get_bits (ucast filter_v) 5 5)])))"

section \<open>Channel state and update protocol\<close>

text \<open>\<^verbatim>\<open>logiclk_man_reg_params_id(input, &data->output[k], data->output[k].id)\<close> on the
  device state.\<close>

definition man_reg_params_id_at :: "logiclk_data \<Rightarrow> nat \<Rightarrow> logiclk_data option" where
  "man_reg_params_id_at d k =
     (case logiclk_man_reg_params_id (input d) (output_arr d ! k)
             (ucast (id_u8 (output_arr d ! k))) (man_regs d) of
        None \<Rightarrow> None
      | Some (outp', regs') \<Rightarrow>
          Some (d\<lparr>output_arr := (output_arr d)[k := outp'], man_regs := regs'\<rparr>))"

text \<open>The loop over all outputs in \<^verbatim>\<open>logiclk_calc_params\<close>.\<close>

fun calc_all_outputs :: "nat list \<Rightarrow> logiclk_data \<Rightarrow> logiclk_data option" where
  "calc_all_outputs [] d = Some d"
| "calc_all_outputs (k # ks) d =
     (case man_reg_params_id_at d k of None \<Rightarrow> None | Some d' \<Rightarrow> calc_all_outputs ks d')"

text \<open>\<^verbatim>\<open>logiclk_calc_params\<close> on channel \<open>i\<close>: the return code and the device state.\<close>

definition logiclk_calc_params :: "logiclk_data \<Rightarrow> nat \<Rightarrow> (int \<times> logiclk_data) option" where
  "logiclk_calc_params d i =
     (let outp = output_arr d ! i in
      if clkout_freq outp < MMCM_OUTPUT_FREQ_MIN \<or> clkout_freq outp > MMCM_OUTPUT_FREQ_MAX
      then Some (- EINVAL, d)
      else if precise outp then
        (case logiclk_pll_input_mult_div (input d) outp of
           (ret, inp') \<Rightarrow>
             let d1 = d\<lparr>input := inp'\<rparr> in
             if ret \<noteq> 0 then Some (ret, d1)
             else
               (case logiclk_man_reg_params inp' outp (man_regs d1) of
                  None \<Rightarrow> None
                | Some regs \<Rightarrow>
                   (case calc_all_outputs [0..<LOGICLK_OUTPUTS] (d1\<lparr>man_regs := regs\<rparr>) of
                      None \<Rightarrow> None
                    | Some d2 \<Rightarrow> Some (0, d2))))
      else
        (case man_reg_params_id_at d i of None \<Rightarrow> None | Some d1 \<Rightarrow> Some (0, d1)))"

text \<open>\<^verbatim>\<open>logiclk_stack_params\<close> with \<^verbatim>\<open>LOGICLK_STACK_PUSH\<close> and \<^verbatim>\<open>LOGICLK_STACK_POP\<close>.\<close>

definition stack_push :: "logiclk_data \<Rightarrow> nat \<Rightarrow> logiclk_data" where
  "stack_push d i = d\<lparr>output_stack := output_arr d ! i, man_regs_stack := man_regs d\<rparr>"

definition stack_pop :: "logiclk_data \<Rightarrow> nat \<Rightarrow> logiclk_data" where
  "stack_pop d i =
     d\<lparr>output_arr := (output_arr d)[i := output_stack d], man_regs := man_regs_stack d\<rparr>"

definition set_clkout_freq :: "logiclk_data \<Rightarrow> nat \<Rightarrow> u32 \<Rightarrow> logiclk_data" where
  "set_clkout_freq d i rate =
     d\<lparr>output_arr := (output_arr d)[i := (output_arr d ! i)\<lparr>clkout_freq := rate\<rparr>]\<rparr>"

text \<open>\<^verbatim>\<open>logiclk_recalc_rate\<close> on channel \<open>i\<close>: the rate returned and the device state.
  \<^verbatim>\<open>parent_rate\<close> is not read.\<close>

definition logiclk_recalc_rate :: "logiclk_data \<Rightarrow> nat \<Rightarrow> (u32 \<times> logiclk_data) option" where
  "logiclk_recalc_rate d i =
     (let inp = input d;
          outp = output_arr d ! i;
          clk_freq_mult = ucast (clk_freq inp) * ucast (clkfbout_mult inp);
          derived =
            (if clkout_freq outp = 0 then
               (case div_u64_chk clk_freq_mult (divclk_divide inp) of
                  None \<Rightarrow> None
                | Some q \<Rightarrow>
                    let rate = (ucast q :: u32) in
                    if clkout_divide outp = 0 then None
                    else Some (outp\<lparr>clkout_freq := rate div clkout_divide outp\<rparr>))
             else Some outp)
      in case derived of
           None \<Rightarrow> None
         | Some outp1 \<Rightarrow>
            (case logiclk_man_reg_params inp outp1 (man_regs d) of
               None \<Rightarrow> None
             | Some regs1 \<Rightarrow>
                (case logiclk_man_reg_params_id inp outp1 (ucast (id_u8 outp1)) regs1 of
                   None \<Rightarrow> None
                 | Some (outp2, regs2) \<Rightarrow>
                     Some (clkout_freq outp2,
                           d\<lparr>output_arr := (output_arr d)[i := outp2], man_regs := regs2\<rparr>))))"

text \<open>\<^verbatim>\<open>logiclk_round_rate\<close> on channel \<open>i\<close>: the value returned (a \<^verbatim>\<open>long\<close>) and the
  device state.\<close>

definition logiclk_round_rate :: "logiclk_data \<Rightarrow> nat \<Rightarrow> u32 \<Rightarrow> (int \<times> logiclk_data) option" where
  "logiclk_round_rate d i rate =
     (let d1 = set_clkout_freq (stack_push d i) i rate in
      case logiclk_calc_params d1 i of
        None \<Rightarrow> None
      | Some (ret, d2) \<Rightarrow>
          if ret \<noteq> 0 then Some (- EINVAL, stack_pop d2 i)
          else Some (sint (clkout_freq (output_arr d2 ! i)), d2))"

text \<open>\<^verbatim>\<open>logiclk_hw_config\<close> touches device registers only. Its return code depends on the
  lock bit the hardware shows at each poll, given here as \<open>lock_at\<close>.\<close>

fun hw_poll :: "(nat \<Rightarrow> bool) \<Rightarrow> nat \<Rightarrow> nat \<Rightarrow> int" where
  "hw_poll lock_at k 0 = (if lock_at k then 0 else - EIO)"
| "hw_poll lock_at k (Suc cnt) = (if lock_at k then 0 else hw_poll lock_at (Suc k) cnt)"

definition logiclk_hw_config :: "(nat \<Rightarrow> bool) \<Rightarrow> int" where
  "logiclk_hw_config lock_at = hw_poll lock_at 0 PLL_LOCK_TIME_INTERVALS"

text \<open>\<^verbatim>\<open>logiclk_set_rate\<close> on channel \<open>i\<close>: the return code and the device state.\<close>

definition logiclk_set_rate ::
  "(nat \<Rightarrow> bool) \<Rightarrow> logiclk_data \<Rightarrow> nat \<Rightarrow> u32 \<Rightarrow> (int \<times> logiclk_data) option" where
  "logiclk_set_rate lock_at d i rate =
     (if rate \<noteq> clkout_freq (output_arr d ! i) then
        (let d1 = set_clkout_freq (stack_push d i) i rate in
         case logiclk_calc_params d1 i of
           None \<Rightarrow> None
         | Some (ret, d2) \<Rightarrow>
             if ret \<noteq> 0 then Some (- EINVAL, stack_pop d2 i)
             else Some (logiclk_hw_config lock_at, d2))
      else Some (logiclk_hw_config lock_at, d))"

section \<open>Notions the properties are stated with\<close>

text \<open>The search space as the specification words it, over the natural numbers:
  pre-divider 1..56 outermost, multiplier 2..64, output divider 1..128 innermost.\<close>

definition search_space :: "(nat \<times> nat \<times> nat) list" where
  "search_space = List.product [1..<57] (List.product [2..<65] [1..<129])"

definition vco_nat :: "nat \<Rightarrow> nat \<Rightarrow> nat \<Rightarrow> nat" where
  "vco_nat ref m dd = (ref * m) div dd"

definition vco_in_window :: "nat \<Rightarrow> bool" where
  "vco_in_window v = (600000000 \<le> v \<and> v \<le> 1600000000)"

definition vco_ok :: "nat \<Rightarrow> nat \<times> nat \<times> nat \<Rightarrow> bool" where
  "vco_ok ref c = (case c of (dd, m, od) \<Rightarrow> vco_in_window (vco_nat ref m dd))"

definition feasible :: "nat \<Rightarrow> (nat \<times> nat \<times> nat) list" where
  "feasible ref = filter (vco_ok ref) search_space"

definition freq_error :: "nat \<Rightarrow> nat \<Rightarrow> nat \<times> nat \<times> nat \<Rightarrow> nat" where
  "freq_error ref tgt c =
     (case c of (dd, m, od) \<Rightarrow> nat \<bar>int (vco_nat ref m dd div od) - int tgt\<bar>)"

text \<open>Reading the ten filter bits back from registers 19 and 20, and the forty lock bits
  back from registers 16 to 18, by the layout \<^verbatim>\<open>logiclk_man_reg_params\<close> writes.\<close>

definition filter_of_regs :: "u32 \<Rightarrow> u32 \<Rightarrow> u32" where
  "filter_of_regs r19 r20 =
     take_bit 1 (drop_bit 4 r20) OR
     push_bit 1 (take_bit 2 (drop_bit 7 r20)) OR
     push_bit 3 (take_bit 2 (drop_bit 11 r20)) OR
     push_bit 5 (take_bit 1 (drop_bit 15 r20)) OR
     push_bit 6 (take_bit 1 (drop_bit 8 r19)) OR
     push_bit 7 (take_bit 2 (drop_bit 11 r19)) OR
     push_bit 9 (take_bit 1 (drop_bit 15 r19))"

definition lock_of_regs :: "u32 \<Rightarrow> u32 \<Rightarrow> u32 \<Rightarrow> u64" where
  "lock_of_regs r16 r17 r18 =
     ucast (take_bit 10 r17) OR
     push_bit 10 (ucast (take_bit 10 r18)) OR
     push_bit 20 (ucast (take_bit 10 r16)) OR
     push_bit 30 (ucast (take_bit 5 (drop_bit 10 r17))) OR
     push_bit 35 (ucast (take_bit 5 (drop_bit 10 r18)))"

text \<open>The four fields of the word \<^verbatim>\<open>logiclk_pll_div\<close> returns: low time in bits 5:0,
  high time in bits 11:6, no-count in bit 12, edge in bit 13.\<close>

definition packed_low :: "u32 \<Rightarrow> u32" where
  "packed_low w = take_bit 6 w"

definition packed_high :: "u32 \<Rightarrow> u32" where
  "packed_high w = take_bit 6 (drop_bit 6 w)"

definition packed_no_count :: "u32 \<Rightarrow> u32" where
  "packed_no_count w = drop_bit 12 w AND 1"

definition packed_edge :: "u32 \<Rightarrow> u32" where
  "packed_edge w = drop_bit 13 w AND 1"


text \<open>\<open>c\<close> is the first element of \<open>cs\<close> that attains the least value of \<open>e\<close> among the
  elements \<open>valid\<close> accepts: everything accepted before it is strictly worse, nothing
  accepted after it is better.\<close>

definition first_min ::
  "('c \<Rightarrow> bool) \<Rightarrow> ('c \<Rightarrow> nat) \<Rightarrow> 'c list \<Rightarrow> 'c list \<Rightarrow> 'c \<Rightarrow> 'c list \<Rightarrow> bool" where
  "first_min valid e cs pre c post \<longleftrightarrow>
     cs = pre @ c # post \<and> valid c \<and>
     (\<forall>x\<in>set pre. valid x \<longrightarrow> e c < e x) \<and>
     (\<forall>x\<in>set post. valid x \<longrightarrow> e c \<le> e x)"

text \<open>The innermost loop body on a triple of the search space, and the store it makes
  into the input stage when the triple improves the error.\<close>

definition flat_body :: "u32 \<Rightarrow> u32 \<Rightarrow> nat \<times> nat \<times> nat \<Rightarrow> logiclk_input \<times> u64 \<Rightarrow> (logiclk_input \<times> u64) ctl" where
  "flat_body cf fq c = (case c of (dd, m, od) \<Rightarrow>
      input_mult_div_body (ucast cf) (ucast fq) (of_nat dd) (of_nat m) (of_nat od))"

definition store_pair :: "nat \<times> nat \<times> nat \<Rightarrow> logiclk_input \<Rightarrow> logiclk_input" where
  "store_pair c inp = (case c of (dd, m, od) \<Rightarrow>
      inp\<lparr>clkfbout_mult := of_nat m, divclk_divide := of_nat dd\<rparr>)"

section \<open>A device state used in the examples\<close>

text \<open>A 100 MHz reference with multiplier 8 and pre-divider 1 (VCO at 800 MHz), and a
  channel asking for 100 MHz at 50 % duty.\<close>

definition ex_input :: logiclk_input where
  "ex_input = \<lparr>clk_freq = 100000000, clkfbout_mult = 8, clkfbout_phase = 0,
                divclk_divide = 1, bw_high = True\<rparr>"

definition ex_channel :: "u8 \<Rightarrow> bool \<Rightarrow> logiclk_output" where
  "ex_channel k p = \<lparr>clkout_freq = 100000000, clkout_divide = 8, clkout_duty = 50000,
                      clkout_phase = 0, id_u8 = k, precise = p\<rparr>"

text \<open>A device with six channels on the example input stage, channel 0 precise; the same
  device on a 5 MHz reference; the example input stage with multiplier 3.\<close>

definition ex_data :: logiclk_data where
  "ex_data = \<lparr>input = ex_input,
              output_arr = [ex_channel 0 True, ex_channel 1 False, ex_channel 2 False,
                            ex_channel 3 False, ex_channel 4 False, ex_channel 5 False],
              output_stack = ex_channel 0 True,
              man_regs = replicate 21 0,
              man_regs_stack = replicate 21 0\<rparr>"

definition starved_data :: logiclk_data where
  "starved_data = ex_data\<lparr>input := ex_input\<lparr>clk_freq := 5000000\<rparr>\<rparr>"

definition mult3_input :: logiclk_input where
  "mult3_input = ex_input\<lparr>clkfbout_mult := 3\<rparr>"

chapter \<open>Properties\<close>

section \<open>Bit fields\<close>

lemma get_bits_take_drop:
  "unat (msb - lsb + 1) \<le> 30 \<Longrightarrow>
   logiclk_get_bits x msb lsb =
     ucast (take_bit (unat (msb - lsb + 1)) (drop_bit (unat lsb) x))"
  unfolding logiclk_get_bits_def
  by (rule bit_word_eqI) (auto simp: bit_simps simp flip: mask_eq_exp_minus_1)

lemma and_numeral_take_bit:
  "(x :: u32) AND 0x3F = take_bit 6 x"
  "(x :: u32) AND 0x7 = take_bit 3 x"
  "(x :: u32) AND 0x1 = take_bit 1 x"
  by (simp_all add: take_bit_eq_mask mask_eq_exp_minus_1)

lemma take_bit_self_less:
  "take_bit n (w :: u32) = w \<Longrightarrow> n < 32 \<Longrightarrow> w < 2 ^ n"
  using mask_eq_iff_w2p[of n w] by (simp add: take_bit_eq_mask word_size)

lemma unat_get_bits_u32:
  assumes a: "unat (msb - lsb + 1) \<le> 30"
  shows "unat (logiclk_get_bits (ucast (t :: u32)) msb lsb) =
           (unat t div 2 ^ unat lsb) mod 2 ^ unat (msb - lsb + 1)"
proof -
  have "(2::nat) ^ unat (msb - lsb + 1) \<le> 2 ^ 32"
    using a by (intro power_increasing) simp_all
  then have bound: "(unat t div 2 ^ unat lsb) mod 2 ^ unat (msb - lsb + 1) < 2 ^ 32"
    by (intro less_le_trans[OF mod_less_divisor]) simp_all
  have "unat t < 2 ^ 32"
    using unsigned_less[of t] by simp
  then have "take_bit 64 (unat t) = unat t" "take_bit 32 (unat t) = unat t"
    by (simp_all add: take_bit_nat_eq_self)
  then have "unat (logiclk_get_bits (ucast t) msb lsb) =
      take_bit 32 (take_bit (unat (msb - lsb + 1)) (drop_bit (unat lsb) (unat t)))"
    by (simp add: get_bits_take_drop[OF a] unsigned_ucast_eq unsigned_take_bit_eq
        unsigned_drop_bit_eq min.commute)
  with bound show ?thesis
    by (simp add: take_bit_eq_mod[where 'a=nat] drop_bit_eq_div[where 'a=nat])
qed

section \<open>The divide-count encoder\<close>

text \<open>
  \<^bold>\<open>C6.\<close> For \<^verbatim>\<open>divide == 1\<close> and every duty value, \<^verbatim>\<open>logiclk_pll_div\<close> produces the
  no-count encoding: low time 1, high time 1, no-count 1, edge 0, packed as \<^verbatim>\<open>0x1041\<close>.
\<close>

theorem pll_div_divide_one:
  "logiclk_pll_div_fields 1 duty = \<lparr>low_time = 1, high_time = 1, no_count = 1, edge = 0\<rparr> \<and>
   logiclk_pll_div 1 duty = 0x1041"
  by (simp add: logiclk_pll_div_def logiclk_pll_div_fields_def pack_div_fields_def)

lemma unat_duty_fix:
  assumes "duty \<le> (99900 :: u32)"
  shows "unat (push_bit (unat LOGICLK_FRACTION_PRECISION) duty div 100000) =
           (unat duty * 1024) div 100000"
proof -
  have d: "unat duty \<le> 99900" using assms by (simp add: word_le_nat_alt)
  have "unat (duty * 1024) = unat duty * 1024"
    using d by (subst unat_mult_lem[THEN iffD1]) simp_all
  then show ?thesis
    by (simp add: LOGICLK_FRACTION_PRECISION_def push_bit_eq_mult unat_div)
qed

lemma unat_round_fraction_le:
  assumes "unat t < 2 ^ 31"
  shows "unat (logiclk_round_fraction t 1) \<le> unat t + 256"
proof -
  have "unat (t + 256) = unat t + 256"
    using assms by (subst unat_add_lem[THEN iffD1]) simp_all
  then show ?thesis
    by (simp add: logiclk_round_fraction_def LOGICLK_FRACTION_PRECISION_def Let_def)
qed

text \<open>The high time read from the rounded product never exceeds the divider.\<close>

lemma high0_le_divide:
  assumes dv: "2 \<le> divide_v" "divide_v \<le> (128 :: u32)" and du: "duty \<le> (99900 :: u32)"
  defines "duty_fix \<equiv> push_bit (unat LOGICLK_FRACTION_PRECISION) duty div 100000"
  defines "temp \<equiv> logiclk_round_fraction (duty_fix * divide_v) 1"
  shows "unat (logiclk_get_bits (ucast temp) (LOGICLK_FRACTION_PRECISION + 6)
                 LOGICLK_FRACTION_PRECISION) \<le> unat divide_v"
proof -
  have D: "2 \<le> unat divide_v" "unat divide_v \<le> 128"
    using dv by (simp_all add: word_le_nat_alt)
  have u: "unat duty \<le> 99900" using du by (simp add: word_le_nat_alt)
  have df: "unat duty_fix \<le> 1022"
    using u unfolding duty_fix_def unat_duty_fix[OF du] by simp
  have small: "unat duty_fix * unat divide_v \<le> 1022 * 128"
    using df D by (intro mult_mono) simp_all
  then have prod: "unat (duty_fix * divide_v) = unat duty_fix * unat divide_v"
    by (subst unat_mult_lem[THEN iffD1]) simp_all
  have "unat duty_fix * unat divide_v \<le> 1022 * unat divide_v"
    using df by simp
  then have t0: "unat (duty_fix * divide_v) \<le> 1022 * unat divide_v"
    and t0': "unat (duty_fix * divide_v) < 2 ^ 31"
    using prod small by simp_all
  have t: "unat temp \<le> 1022 * unat divide_v + 256"
    using unat_round_fraction_le[OF t0'] t0 unfolding temp_def by linarith
  have "unat (logiclk_get_bits (ucast temp) (LOGICLK_FRACTION_PRECISION + 6)
                LOGICLK_FRACTION_PRECISION) = (unat temp div 1024) mod 128"
    by (simp add: LOGICLK_FRACTION_PRECISION_def unat_get_bits_u32)
  also have "\<dots> \<le> unat temp div 1024" by simp
  also have "\<dots> \<le> unat divide_v" using t D by simp
  finally show ?thesis .
qed

lemma pll_div_fields_bounds:
  assumes dv: "2 \<le> divide_v" "divide_v \<le> (128 :: u32)" and du: "duty \<le> (99900 :: u32)"
  shows "no_count (logiclk_pll_div_fields divide_v duty) = 0"
    and "1 \<le> unat (high_time (logiclk_pll_div_fields divide_v duty))"
    and "unat (high_time (logiclk_pll_div_fields divide_v duty)) < unat divide_v"
    and "unat (low_time (logiclk_pll_div_fields divide_v duty)) =
           unat divide_v - unat (high_time (logiclk_pll_div_fields divide_v duty))"
proof -
  define duty_fix where "duty_fix = push_bit (unat LOGICLK_FRACTION_PRECISION) duty div 100000"
  define temp where "temp = logiclk_round_fraction (duty_fix * divide_v) 1"
  define high0 where "high0 = logiclk_get_bits (ucast temp) (LOGICLK_FRACTION_PRECISION + 6)
                                LOGICLK_FRACTION_PRECISION"
  define high1 where "high1 = (if high0 = 0 then 1 else high0)"
  define high2 where "high2 = (if high1 = divide_v then divide_v - 1 else high1)"
  have D: "2 \<le> unat divide_v" "unat divide_v \<le> 128"
    using dv by (simp_all add: word_le_nat_alt)
  have ne1: "divide_v \<noteq> 1" using D by auto
  have h0: "unat high0 \<le> unat divide_v"
    unfolding high0_def temp_def duty_fix_def by (rule high0_le_divide[OF dv du])
  have h1: "1 \<le> unat high1" "unat high1 \<le> unat divide_v"
    using h0 D by (auto simp: high1_def unat_gt_0 Suc_le_eq)
  have dm1: "unat (divide_v - 1) = unat divide_v - 1"
    using D by (simp add: unat_sub word_le_nat_alt)
  have h2: "1 \<le> unat high2" "unat high2 < unat divide_v"
    using h1 D dm1 by (auto simp: high2_def word_unat_eq_iff)
  have hle: "high2 \<le> divide_v" using h2 by (simp add: word_le_nat_alt)
  have hi: "high_time (logiclk_pll_div_fields divide_v duty) = high2"
    using ne1
    by (simp add: logiclk_pll_div_fields_def Let_def high2_def high1_def high0_def temp_def
        duty_fix_def split: if_splits)
  have lo: "low_time (logiclk_pll_div_fields divide_v duty) = divide_v - high2"
    using ne1
    by (simp add: logiclk_pll_div_fields_def Let_def high2_def high1_def high0_def temp_def
        duty_fix_def split: if_splits)
  show "no_count (logiclk_pll_div_fields divide_v duty) = 0"
    using ne1 by (simp add: logiclk_pll_div_fields_def Let_def split_def)
  show "1 \<le> unat (high_time (logiclk_pll_div_fields divide_v duty))" using h2 hi by simp
  show "unat (high_time (logiclk_pll_div_fields divide_v duty)) < unat divide_v"
    using h2 hi by simp
  show "unat (low_time (logiclk_pll_div_fields divide_v duty)) =
           unat divide_v - unat (high_time (logiclk_pll_div_fields divide_v duty))"
    unfolding hi lo using hle by (simp add: unat_sub)
qed

text \<open>The fields of the returned word are the variables cut to their widths.\<close>

lemma packed_fields_of_pack:
  "packed_low (pack_div_fields f) = take_bit 6 (low_time f)"
  "packed_high (pack_div_fields f) = take_bit 6 (high_time f)"
  "packed_no_count (pack_div_fields f) = no_count f AND 1"
  "packed_edge (pack_div_fields f) = edge f AND 1"
  unfolding packed_low_def packed_high_def packed_no_count_def packed_edge_def
    pack_div_fields_def and_numeral_take_bit(1,2)
  by (rule bit_word_eqI; auto simp: bit_simps)+

lemma unat_take_bit_6: "unat (take_bit 6 (x :: u32)) = unat x mod 64"
  by (simp add: take_bit_eq_mod unat_mod)

lemma pll_div_packed_fields_are_6_bit:
  "low_time (logiclk_pll_div_fields 128 50000) = 64 \<and>
   high_time (logiclk_pll_div_fields 128 50000) = 64 \<and>
   logiclk_pll_div 128 50000 = 0"
  by (simp add: logiclk_pll_div_def logiclk_pll_div_fields_def pack_div_fields_def Let_def
      logiclk_round_fraction_def logiclk_get_bits_def LOGICLK_FRACTION_PRECISION_def)

text \<open>
  \<^bold>\<open>C7.\<close> For every divide in 1..128 and every duty in 100..99900 the word returned by
  \<^verbatim>\<open>logiclk_pll_div\<close> has no-count 0 exactly for divide at least 2, and then: the variables
  \<^verbatim>\<open>low_time\<close> and \<^verbatim>\<open>high_time\<close> add up to \<^verbatim>\<open>divide\<close> (over the natural numbers, nothing
  wraps); the low and high fields of the word are these variables cut to six bits; so the
  two fields add up to \<^verbatim>\<open>divide\<close> modulo 64, and to \<^verbatim>\<open>divide\<close> itself for divide up to 64.
\<close>

theorem pll_div_packed_low_plus_high:
  assumes "1 \<le> divide_v" "divide_v \<le> (128 :: u32)" "100 \<le> duty" "duty \<le> (99900 :: u32)"
  shows "(packed_no_count (logiclk_pll_div divide_v duty) = 0 \<longleftrightarrow> 2 \<le> divide_v) \<and>
         (packed_no_count (logiclk_pll_div divide_v duty) = 0 \<longrightarrow>
            unat (low_time (logiclk_pll_div_fields divide_v duty)) +
            unat (high_time (logiclk_pll_div_fields divide_v duty)) = unat divide_v \<and>
            packed_low (logiclk_pll_div divide_v duty) =
              take_bit 6 (low_time (logiclk_pll_div_fields divide_v duty)) \<and>
            packed_high (logiclk_pll_div divide_v duty) =
              take_bit 6 (high_time (logiclk_pll_div_fields divide_v duty)) \<and>
            (unat (packed_low (logiclk_pll_div divide_v duty)) +
             unat (packed_high (logiclk_pll_div divide_v duty))) mod 64 = unat divide_v mod 64 \<and>
            (divide_v \<le> 64 \<longrightarrow>
               unat (packed_low (logiclk_pll_div divide_v duty)) +
               unat (packed_high (logiclk_pll_div divide_v duty)) = unat divide_v))"
proof (cases "divide_v = 1")
  case True
  then show ?thesis
    by (simp add: logiclk_pll_div_def packed_fields_of_pack logiclk_pll_div_fields_def
        word_le_nat_alt)
next
  case False
  let ?f = "logiclk_pll_div_fields divide_v duty"
  have "1 \<le> unat divide_v" using assms(1) by (simp add: word_le_nat_alt)
  moreover have "unat divide_v \<noteq> 1"
    using False by (simp add: word_unat_eq_iff)
  ultimately have "2 \<le> unat divide_v" by simp
  then have two: "2 \<le> divide_v" by (simp add: word_le_nat_alt)
  note b = pll_div_fields_bounds[OF two assms(2) assms(4)]
  have nc: "packed_no_count (logiclk_pll_div divide_v duty) = 0"
    by (simp add: logiclk_pll_div_def packed_fields_of_pack b(1))
  have sum: "unat (low_time ?f) + unat (high_time ?f) = unat divide_v"
    using b by simp
  have pl: "unat (packed_low (logiclk_pll_div divide_v duty)) = unat (low_time ?f) mod 64"
    and ph: "unat (packed_high (logiclk_pll_div divide_v duty)) = unat (high_time ?f) mod 64"
    by (simp_all add: logiclk_pll_div_def packed_fields_of_pack unat_take_bit_6)
  have m: "(unat (low_time ?f) mod 64 + unat (high_time ?f) mod 64) mod 64 = unat divide_v mod 64"
    unfolding sum[symmetric] by (simp add: mod_add_eq)
  have small: "unat (low_time ?f) mod 64 + unat (high_time ?f) mod 64 = unat divide_v"
    if "divide_v \<le> 64"
  proof -
    have "unat divide_v \<le> 64" using that by (simp add: word_le_nat_alt)
    then have "unat (low_time ?f) < 64" "unat (high_time ?f) < 64"
      using b by simp_all
    then show ?thesis using sum by simp
  qed
  have plw: "packed_low (logiclk_pll_div divide_v duty) = take_bit 6 (low_time ?f)"
    and phw: "packed_high (logiclk_pll_div divide_v duty) = take_bit 6 (high_time ?f)"
    by (simp_all add: logiclk_pll_div_def packed_fields_of_pack)
  have m': "(unat (packed_low (logiclk_pll_div divide_v duty)) +
             unat (packed_high (logiclk_pll_div divide_v duty))) mod 64 = unat divide_v mod 64"
    unfolding pl ph by (rule m)
  have small': "unat (packed_low (logiclk_pll_div divide_v duty)) +
               unat (packed_high (logiclk_pll_div divide_v duty)) = unat divide_v"
    if "divide_v \<le> 64"
    unfolding pl ph using that by (rule small)
  show ?thesis
  proof (intro conjI impI iffI)
    show "2 \<le> divide_v" by (rule two)
    show "packed_no_count (logiclk_pll_div divide_v duty) = 0" by (rule nc)
    show "unat (low_time ?f) + unat (high_time ?f) = unat divide_v" by (rule sum)
    show "packed_low (logiclk_pll_div divide_v duty) = take_bit 6 (low_time ?f)" by (rule plw)
    show "packed_high (logiclk_pll_div divide_v duty) = take_bit 6 (high_time ?f)" by (rule phw)
    show "(unat (packed_low (logiclk_pll_div divide_v duty)) +
             unat (packed_high (logiclk_pll_div divide_v duty))) mod 64 = unat divide_v mod 64"
      by (rule m')
    show "unat (packed_low (logiclk_pll_div divide_v duty)) +
               unat (packed_high (logiclk_pll_div divide_v duty)) = unat divide_v"
      if "divide_v \<le> 64" using that by (rule small')
  qed
qed

theorem pll_div_packed_low_plus_high_witness:
  "(1 :: u32) \<le> 4 \<and> (4 :: u32) \<le> 128 \<and> (100 :: u32) \<le> 50000 \<and> (50000 :: u32) \<le> 99900 \<and>
   packed_no_count (logiclk_pll_div 4 50000) = 0 \<and> (4 :: u32) \<le> 64 \<and>
   unat (packed_low (logiclk_pll_div 4 50000)) +
   unat (packed_high (logiclk_pll_div 4 50000)) = unat (4 :: u32)"
proof -
  have h: "(1 :: u32) \<le> 4" "(4 :: u32) \<le> 128" "(100 :: u32) \<le> 50000"
    "(50000 :: u32) \<le> 99900"
    by simp_all
  have le: "(4 :: u32) \<le> 64" and two: "(2 :: u32) \<le> 4" by simp_all
  note t = pll_div_packed_low_plus_high[OF h]
  have nc: "packed_no_count (logiclk_pll_div 4 50000) = 0"
    using t two by blast
  have sum: "unat (packed_low (logiclk_pll_div 4 50000)) +
      unat (packed_high (logiclk_pll_div 4 50000)) = unat (4 :: u32)"
    using t nc le by blast
  show ?thesis by (intro conjI h nc le sum)
qed

text \<open>At divide 128 and 50 % duty both times are 64, both fields of the word are 0, and
  the fields do not add up to the divider.\<close>

theorem pll_div_packed_fields_at_128:
  "(1 :: u32) \<le> 128 \<and> (128 :: u32) \<le> 128 \<and> (100 :: u32) \<le> 50000 \<and> (50000 :: u32) \<le> 99900 \<and>
   packed_no_count (logiclk_pll_div 128 50000) = 0 \<and>
   packed_low (logiclk_pll_div 128 50000) = 0 \<and>
   packed_high (logiclk_pll_div 128 50000) = 0 \<and>
   unat (packed_low (logiclk_pll_div 128 50000)) +
   unat (packed_high (logiclk_pll_div 128 50000)) \<noteq> unat (128 :: u32)"
  using pll_div_packed_fields_are_6_bit
  by (simp add: packed_low_def packed_high_def packed_no_count_def)

section \<open>The count word\<close>

lemma pll_phase_bits: "take_bit 9 (logiclk_pll_phase d ph) = logiclk_pll_phase d ph"
  unfolding logiclk_pll_phase_def Let_def and_numeral_take_bit
  by (rule bit_word_eqI) (auto simp: bit_simps)

lemma phase_bits_10_9: "logiclk_get_bits (ucast (logiclk_pll_phase d ph)) 10 9 = 0"
  apply (subst pll_phase_bits[symmetric])
  apply (simp add: get_bits_take_drop)
  apply (rule bit_word_eqI)
  apply (auto simp: bit_simps)
  done

lemma count_word_fields:
  "logiclk_get_bits (ucast (logiclk_pll_count d du ph)) 11 0 =
     logiclk_get_bits (ucast (logiclk_pll_div d du)) 11 0"
  "logiclk_get_bits (ucast (logiclk_pll_count d du ph)) 15 13 =
     logiclk_get_bits (ucast (logiclk_pll_phase d ph)) 8 6"
  "logiclk_get_bits (ucast (logiclk_pll_count d du ph)) 21 16 =
     logiclk_get_bits (ucast (logiclk_pll_phase d ph)) 5 0"
  "logiclk_get_bits (ucast (logiclk_pll_count d du ph)) 23 22 =
     logiclk_get_bits (ucast (logiclk_pll_div d du)) 13 12"
  "logiclk_get_bits (ucast (logiclk_pll_count d du ph)) 25 24 =
     logiclk_get_bits (ucast (logiclk_pll_phase d ph)) 10 9"
  unfolding logiclk_pll_count_def Let_def
  by (simp_all add: get_bits_take_drop; rule bit_word_eqI; auto simp: bit_simps)+

lemma pll_count_bits: "take_bit 24 (logiclk_pll_count d du ph) = logiclk_pll_count d du ph"
  unfolding logiclk_pll_count_def Let_def
  apply (simp add: phase_bits_10_9)
  apply (simp add: get_bits_take_drop)
  apply (rule bit_word_eqI)
  apply (auto simp: bit_simps)
  done

text \<open>
  \<^bold>\<open>C8.\<close> Round trip over the count-word interleave: for every divide, duty and phase,
  \<^verbatim>\<open>logiclk_get_bits\<close> applied to the count word of \<^verbatim>\<open>logiclk_pll_count\<close> at the ranges
  [11:0], [15:13], [21:16], [23:22] and [25:24] gives bits 11:0 of the divide count, bits
  8:6 of the phase count, bits 5:0 of the phase count, bits 13:12 of the divide count and
  bits 10:9 of the phase count. The bits of the two counts are written with \<open>take_bit\<close>
  and \<open>drop_bit\<close>, not with the extractor.
\<close>

theorem count_word_round_trip:
  "logiclk_get_bits (ucast (logiclk_pll_count d du ph)) 11 0 =
     take_bit 12 (logiclk_pll_div d du) \<and>
   logiclk_get_bits (ucast (logiclk_pll_count d du ph)) 15 13 =
     take_bit 3 (drop_bit 6 (logiclk_pll_phase d ph)) \<and>
   logiclk_get_bits (ucast (logiclk_pll_count d du ph)) 21 16 =
     take_bit 6 (logiclk_pll_phase d ph) \<and>
   logiclk_get_bits (ucast (logiclk_pll_count d du ph)) 23 22 =
     take_bit 2 (drop_bit 12 (logiclk_pll_div d du)) \<and>
   logiclk_get_bits (ucast (logiclk_pll_count d du ph)) 25 24 =
     take_bit 2 (drop_bit 9 (logiclk_pll_phase d ph))"
proof -
  have g: "logiclk_get_bits (ucast (x :: u32)) 11 0 = take_bit 12 x"
    "logiclk_get_bits (ucast x) 8 6 = take_bit 3 (drop_bit 6 x)"
    "logiclk_get_bits (ucast x) 5 0 = take_bit 6 x"
    "logiclk_get_bits (ucast x) 13 12 = take_bit 2 (drop_bit 12 x)"
    "logiclk_get_bits (ucast x) 10 9 = take_bit 2 (drop_bit 9 x)" for x
    by (simp_all add: get_bits_take_drop; rule bit_word_eqI; auto simp: bit_simps)+
  show ?thesis
    using count_word_fields[of d du ph] unfolding g by simp
qed

text \<open>
  \<^bold>\<open>C10.\<close> For every divide and phase \<^verbatim>\<open>logiclk_pll_phase\<close> returns a value below
  \<open>2\<^sup>9\<close>; hence the [25:24] field of the count word is zero and every count word of
  \<^verbatim>\<open>logiclk_pll_count\<close> is below \<open>2\<^sup>2\<^sup>4\<close>.
\<close>

theorem pll_phase_and_count_bounds:
  "logiclk_pll_phase d ph < 2 ^ 9 \<and>
   logiclk_get_bits (ucast (logiclk_pll_count d du ph)) 25 24 = 0 \<and>
   logiclk_pll_count d du ph < 2 ^ 24"
proof (intro conjI)
  show "logiclk_pll_phase d ph < 2 ^ 9"
    by (rule take_bit_self_less[OF pll_phase_bits]) simp
  show "logiclk_get_bits (ucast (logiclk_pll_count d du ph)) 25 24 = 0"
    by (simp only: count_word_fields(5) phase_bits_10_9)
  show "logiclk_pll_count d du ph < 2 ^ 24"
    by (rule take_bit_self_less[OF pll_count_bits]) simp
qed

section \<open>Loops\<close>

text \<open>Nested loops over ranges are one loop over the product of the ranges.\<close>

lemma for_loop_map: "for_loop body (map f xs) s = for_loop (\<lambda>i. body (f i)) xs s"
  by (induction xs arbitrary: s) (auto split: ctl.splits)

lemma for_loop_append:
  "for_loop body (xs @ ys) s =
     (case for_loop body xs s of Return r \<Rightarrow> Return r | Next s' \<Rightarrow> for_loop body ys s')"
  by (induction xs arbitrary: s) (auto split: ctl.splits)

lemma for_loop_product:
  "for_loop (\<lambda>x. for_loop (g x) ys) xs s = for_loop (\<lambda>(x, y). g x y) (List.product xs ys) s"
  by (induction xs arbitrary: s) (auto simp: for_loop_append for_loop_map split: ctl.splits)

section \<open>Arithmetic of the search on words\<close>

text \<open>\<^verbatim>\<open>abs64\<close> of a difference of two values below \<open>2\<^sup>6\<^sup>3\<close> is the distance of the
  values, and \<^verbatim>\<open>abs64\<close> never yields \<^verbatim>\<open>(u64)-1\<close>.\<close>

lemma sint_of_small:
  fixes a :: u64
  assumes "uint a < 2 ^ 63"
  shows "sint a = uint a"
proof -
  have "- (2 ^ 63) \<le> (0 :: int)" by simp
  also have "0 \<le> uint a" by simp
  finally have "- (2 ^ 63) \<le> uint a" .
  then have "signed_take_bit 63 (uint a) = uint a"
    using assms by (intro signed_take_bit_int_eq_self)
  then show ?thesis by (simp add: sint_uint)
qed

lemma sint_diff_small:
  fixes a b :: u64
  assumes "uint a < 2 ^ 63" "uint b < 2 ^ 63"
  shows "sint (a - b) = uint a - uint b"
proof -
  have p: "(2 :: int) ^ 63 = 9223372036854775808" by simp
  have nn: "0 \<le> uint a" "0 \<le> uint b" by simp_all
  have "- (2 ^ 63) \<le> uint a - uint b" "uint a - uint b < 2 ^ 63"
    using assms nn unfolding p by linarith+
  then have "signed_take_bit 63 (uint a - uint b) = uint a - uint b"
    by (intro signed_take_bit_int_eq_self)
  moreover have "sint a = uint a" "sint b = uint b"
    using assms by (simp_all add: sint_of_small)
  ultimately show ?thesis
    by (simp add: sint_word_diff)
qed

lemma uint_abs64_diff:
  fixes a b :: u64
  assumes "uint a < 2 ^ 63" "uint b < 2 ^ 63"
  shows "uint (abs64 (a - b)) = \<bar>uint a - uint b\<bar>"
proof -
  have s: "sint (a - b) = uint a - uint b"
    using assms by (rule sint_diff_small)
  show ?thesis
  proof (cases "uint b \<le> uint a")
    case True
    then have "uint (a - b) = uint a - uint b"
      by (simp add: uint_sub_if')
    then show ?thesis
      using True s by (simp add: abs64_def)
  next
    case False
    then have "uint (b - a) = uint b - uint a"
      by (simp add: uint_sub_if')
    then show ?thesis
      using False s by (simp add: abs64_def)
  qed
qed

lemma abs64_less_max: "abs64 x < - 1"
proof -
  have "abs64 x \<noteq> - 1"
  proof
    assume h: "abs64 x = - 1"
    show False
    proof (cases "sint x < 0")
      case True
      then have "- x = - 1" using h by (simp add: abs64_def)
      then have "x = 1" by simp
      then show False using True by simp
    next
      case False
      then have "x = - 1" using h by (simp add: abs64_def)
      then show False using False by simp
    qed
  qed
  then show ?thesis by (simp add: less_le)
qed

lemma unat_ucast_u32_u64: "unat (ucast (x :: u32) :: u64) = unat x"
proof -
  have "unat x < 2 ^ 32" using unsigned_less[of x] by simp
  then show ?thesis
    by (simp add: unsigned_ucast_eq take_bit_nat_eq_self)
qed

lemma unat_of_nat_u64: "n < 2 ^ 64 \<Longrightarrow> unat (of_nat n :: u64) = n"
  by (simp add: unat_of_nat)

lemma unat_of_nat_u32: "n < 2 ^ 32 \<Longrightarrow> unat (of_nat n :: u32) = n"
  by (simp add: unat_of_nat)

lemma vco_word:
  fixes cf :: u32
  assumes "m \<le> 64"  "dd \<le> 56"
  shows "unat (div_u64 (ucast cf * of_nat m) (of_nat dd)) = vco_nat (unat cf) m dd"
proof -
  have r: "unat cf < 2 ^ 32" using unsigned_less[of cf] by simp
  have "unat cf * m \<le> 2 ^ 32 * 64"
    using r assms by (intro mult_mono) simp_all
  then have small: "unat cf * m < 2 ^ 64" by simp
  have m: "unat (of_nat m :: u64) = m"
    using assms by (intro unat_of_nat_u64) simp
  have "unat (ucast cf :: u64) * unat (of_nat m :: u64) < 2 ^ 64"
    using small by (simp add: unat_ucast_u32_u64 m)
  then have "unat (ucast cf * of_nat m :: u64) = unat cf * m"
    by (simp add: unat_mult_lem[THEN iffD1] unat_ucast_u32_u64 m)
  moreover have "unat (ucast (of_nat dd :: u32) :: u64) = dd"
    using assms by (simp add: unat_ucast_u32_u64 unat_of_nat_u32)
  ultimately show ?thesis
    by (simp add: div_u64_def unat_div vco_nat_def)
qed

lemma out_freq_word:
  fixes v :: u64
  assumes "od \<le> 128"
  shows "unat (div_u64 v (of_nat od)) = unat v div od"
proof -
  have "unat (ucast (of_nat od :: u32) :: u64) = od"
    using assms by (simp add: unat_ucast_u32_u64 unat_of_nat_u32)
  then show ?thesis by (simp add: div_u64_def unat_div)
qed

lemma uint_less_of_unat_less:
  fixes a :: u64
  assumes "unat a < 2 ^ 63"
  shows "uint a < 2 ^ 63"
proof -
  have "int (unat a) < int (2 ^ 63)"
    using assms by (simp only: of_nat_less_iff)
  moreover have "int (2 ^ 63) = 2 ^ 63" by simp
  ultimately show ?thesis by (simp only: uint_nat)
qed

lemma unat_abs64_diff:
  fixes a b :: u64
  assumes "unat a < 2 ^ 63" "unat b < 2 ^ 63"
  shows "unat (abs64 (a - b)) = nat \<bar>int (unat a) - int (unat b)\<bar>"
proof -
  have main: "uint (abs64 (a - b)) = \<bar>uint a - uint b\<bar>"
    using assms by (intro uint_abs64_diff uint_less_of_unat_less)
  have "unat (abs64 (a - b)) = nat (uint (abs64 (a - b)))"
    by (rule unat_eq_nat_uint)
  also have "\<dots> = nat \<bar>uint a - uint b\<bar>"
    by (simp only: main)
  also have "\<dots> = nat \<bar>int (unat a) - int (unat b)\<bar>"
    by (simp only: uint_nat)
  finally show ?thesis .
qed

text \<open>The innermost loop body in terms of the search space over the naturals.\<close>

lemma input_mult_div_body_nat:
  fixes cf fq :: u32 and inp :: logiclk_input and E :: u64
  assumes dd: "1 \<le> dd" "dd \<le> 56" and m: "2 \<le> m" "m \<le> 64" and od: "1 \<le> od" "od \<le> 128"
  defines "e \<equiv> freq_error (unat cf) (unat fq) (dd, m, od)"
  defines "inp' \<equiv> inp\<lparr>clkfbout_mult := of_nat m, divclk_divide := of_nat dd\<rparr>"
  shows "input_mult_div_body (ucast cf) (ucast fq) (of_nat dd) (of_nat m) (of_nat od) (inp, E) =
     (if vco_ok (unat cf) (dd, m, od) \<and> e < unat E
      then (if e = 0 then Return (inp', E) else Next (inp', of_nat e))
      else Next (inp, E))"
proof -
  define vw where "vw = div_u64 (ucast cf * of_nat m) (of_nat dd)"
  define ow where "ow = div_u64 vw (of_nat od)"
  define ew where "ew = abs64 (ow - ucast fq)"
  have v: "unat vw = vco_nat (unat cf) m dd"
    unfolding vw_def using m dd by (intro vco_word) simp_all
  have win: "(vw < MMCM_VCO_FREQ_MIN \<or> vw > MMCM_VCO_FREQ_MAX) \<longleftrightarrow> \<not> vco_ok (unat cf) (dd, m, od)"
    by (auto simp: word_less_nat_alt v MMCM_VCO_FREQ_MIN_def MMCM_VCO_FREQ_MAX_def vco_ok_def
        vco_in_window_def)
  have nar: "(ucast (of_nat m :: u64) :: u32) = of_nat m"
    using m by (simp add: unsigned_of_nat take_bit_nat_eq_self)
  show ?thesis
  proof (cases "vco_ok (unat cf) (dd, m, od)")
    case False
    then show ?thesis
      using win by (simp add: input_mult_div_body_def Let_def flip: vw_def)
  next
    case True
    then have vle: "unat vw \<le> 1600000000"
      by (simp add: v vco_ok_def vco_in_window_def)
    have o: "unat ow = vco_nat (unat cf) m dd div od"
      unfolding ow_def using od by (simp add: out_freq_word v)
    have "unat ow \<le> unat vw" by (simp add: o v)
    then have o63: "unat ow < 2 ^ 63" using vle by simp
    have "unat (ucast fq :: u64) < 2 ^ 32"
      using unsigned_less[of fq] by (simp add: unat_ucast_u32_u64)
    then have f63: "unat (ucast fq :: u64) < 2 ^ 63" by simp
    have e: "unat ew = e"
      unfolding ew_def e_def
      by (simp add: unat_abs64_diff[OF o63 f63] o unat_ucast_u32_u64 freq_error_def)
    then have ew: "ew = of_nat e" by (metis of_nat_unat ucast_id)
    have lt: "ew < E \<longleftrightarrow> e < unat E" by (simp add: word_less_nat_alt e)
    have z: "ew = 0 \<longleftrightarrow> e = 0" using e by (simp add: unat_eq_0[symmetric])
    show ?thesis
      using True win lt z
      by (simp add: input_mult_div_body_def Let_def nar inp'_def ew
          flip: vw_def ow_def ew_def)
  qed
qed

section \<open>A minimum search with early return\<close>

text \<open>A loop whose body keeps the best candidate so far, moves on strict improvement only
  and returns at error 0, ends on the first candidate that attains the least error.\<close>

lemma first_min_here:
  "valid x \<Longrightarrow> (\<And>y. y \<in> set xs \<Longrightarrow> valid y \<Longrightarrow> e x \<le> e y) \<Longrightarrow>
   first_min valid e (x # xs) [] x xs"
  by (simp add: first_min_def)

lemma first_min_later:
  "first_min valid e xs pre c post \<Longrightarrow> (valid x \<Longrightarrow> e c < e x) \<Longrightarrow>
   first_min valid e (x # xs) (x # pre) c post"
  by (simp add: first_min_def)

lemma for_loop_no_improvement:
  fixes body :: "'c \<Rightarrow> 'b \<times> u64 \<Rightarrow> ('b \<times> u64) ctl"
  assumes step: "\<And>c. c \<in> set cs \<Longrightarrow> body c (b, E) = Next (b, E)"
  shows "for_loop body cs (b, E) = Next (b, E)"
  using step by (induction cs) simp_all

lemma for_loop_first_min:
  fixes body :: "'c \<Rightarrow> 'b \<times> u64 \<Rightarrow> ('b \<times> u64) ctl"
    and valid :: "'c \<Rightarrow> bool" and e :: "'c \<Rightarrow> nat" and upd :: "'c \<Rightarrow> 'b \<Rightarrow> 'b"
  assumes step: "\<And>c b E. c \<in> set cs \<Longrightarrow>
      body c (b, E) =
        (if valid c \<and> e c < unat E
         then (if e c = 0 then Return (upd c b, E) else Next (upd c b, of_nat (e c)))
         else Next (b, E))"
    and small: "\<And>c. c \<in> set cs \<Longrightarrow> valid c \<Longrightarrow> e c < 2 ^ 64"
    and upd: "\<And>c c' b. upd c (upd c' b) = upd c b"
    and some: "\<exists>c\<in>set cs. valid c \<and> e c < unat E"
  shows "\<exists>pre c post. first_min valid e cs pre c post \<and> e c < unat E \<and>
           fst (ctl_state (for_loop body cs (b, E))) = upd c b \<and>
           (is_return (for_loop body cs (b, E)) \<longleftrightarrow> e c = 0)"
  using step small some
proof (induction cs arbitrary: b E)
  case Nil
  then show ?case by simp
next
  case (Cons x xs)
  have stepx: "body x (b, E) =
        (if valid x \<and> e x < unat E
         then (if e x = 0 then Return (upd x b, E) else Next (upd x b, of_nat (e x)))
         else Next (b, E))"
    by (rule Cons.prems(1)) simp
  have step': "body c (b', E') =
        (if valid c \<and> e c < unat E'
         then (if e c = 0 then Return (upd c b', E') else Next (upd c b', of_nat (e c)))
         else Next (b', E'))" if "c \<in> set xs" for c b' E'
    using that by (intro Cons.prems(1)) simp
  have small': "e c < 2 ^ 64" if "c \<in> set xs" "valid c" for c
    using that by (intro Cons.prems(2)) simp_all
  have IH: "\<exists>pre c post. first_min valid e xs pre c post \<and> e c < unat E' \<and>
           fst (ctl_state (for_loop body xs (b', E'))) = upd c b' \<and>
           (is_return (for_loop body xs (b', E')) \<longleftrightarrow> e c = 0)"
    if "\<exists>c\<in>set xs. valid c \<and> e c < unat E'" for b' E'
  proof (rule Cons.IH)
    show "body c (b, E) =
        (if valid c \<and> e c < unat E
         then (if e c = 0 then Return (upd c b, E) else Next (upd c b, of_nat (e c)))
         else Next (b, E))" if "c \<in> set xs" for c b E
      using that by (rule step')
    show "e c < 2 ^ 64" if "c \<in> set xs" "valid c" for c
      using that by (rule small')
    show "\<exists>c\<in>set xs. valid c \<and> e c < unat E'" by (fact that)
  qed
  show ?case
  proof (cases "valid x \<and> e x < unat E")
    case better: True
    then have vx: "valid x" and ex_lt: "e x < unat E" by simp_all
    show ?thesis
    proof (cases "e x = 0")
      case True
      then have r: "for_loop body (x # xs) (b, E) = Return (upd x b, E)"
        using better stepx by simp
      have "first_min valid e (x # xs) [] x xs"
        using vx True by (intro first_min_here) simp_all
      moreover have "fst (ctl_state (for_loop body (x # xs) (b, E))) = upd x b"
        by (simp only: r ctl_state.simps fst_conv)
      moreover have "is_return (for_loop body (x # xs) (b, E)) \<longleftrightarrow> e x = 0"
        unfolding r using True by simp
      ultimately show ?thesis using ex_lt by (intro exI conjI)
    next
      case False
      have ex: "unat (of_nat (e x) :: u64) = e x"
        using Cons.prems(2)[of x] vx by (simp add: unat_of_nat)
      have r: "for_loop body (x # xs) (b, E) = for_loop body xs (upd x b, of_nat (e x))"
        using better False stepx by simp
      show ?thesis
      proof (cases "\<exists>c\<in>set xs. valid c \<and> e c < e x")
        case True
        then have "\<exists>c\<in>set xs. valid c \<and> e c < unat (of_nat (e x) :: u64)"
          by (simp only: ex)
        from IH[OF this, of "upd x b"]
        obtain pre c post where fm: "first_min valid e xs pre c post"
          and lt: "e c < unat (of_nat (e x) :: u64)"
          and st: "fst (ctl_state (for_loop body xs (upd x b, of_nat (e x)))) = upd c (upd x b)"
          and rt: "is_return (for_loop body xs (upd x b, of_nat (e x))) \<longleftrightarrow> e c = 0"
          by (elim exE conjE)
        have lt': "e c < e x" using lt by (simp only: ex)
        have "first_min valid e (x # xs) (x # pre) c post"
          using fm lt' by (intro first_min_later)
        moreover have "e c < unat E" using lt' ex_lt by simp
        moreover have "fst (ctl_state (for_loop body (x # xs) (b, E))) = upd c b"
          using st by (simp only: r upd)
        moreover have "is_return (for_loop body (x # xs) (b, E)) \<longleftrightarrow> e c = 0"
          using rt by (simp only: r)
        ultimately show ?thesis by (intro exI conjI)
      next
        case none: False
        have "for_loop body xs (upd x b, of_nat (e x)) = Next (upd x b, of_nat (e x))"
        proof (rule for_loop_no_improvement)
          fix c assume c: "c \<in> set xs"
          then have "\<not> (valid c \<and> e c < e x)" using none by blast
          then show "body c (upd x b, of_nat (e x)) = Next (upd x b, of_nat (e x))"
            by (simp only: step'[OF c] ex if_False)
        qed
        then have r': "for_loop body (x # xs) (b, E) = Next (upd x b, of_nat (e x))"
          by (simp only: r)
        have "first_min valid e (x # xs) [] x xs"
          using vx none by (intro first_min_here) (auto simp: not_less)
        moreover have "fst (ctl_state (for_loop body (x # xs) (b, E))) = upd x b"
          by (simp only: r' ctl_state.simps fst_conv)
        moreover have "is_return (for_loop body (x # xs) (b, E)) \<longleftrightarrow> e x = 0"
          unfolding r' using False by simp
        ultimately show ?thesis using ex_lt by (intro exI conjI)
      qed
    qed
  next
    case worse: False
    then have "body x (b, E) = Next (b, E)"
      unfolding stepx by (rule if_not_P)
    then have r: "for_loop body (x # xs) (b, E) = for_loop body xs (b, E)"
      by simp
    from Cons.prems(3) worse have "\<exists>c\<in>set xs. valid c \<and> e c < unat E"
      by auto
    from IH[OF this, of b]
    obtain pre c post where fm: "first_min valid e xs pre c post"
      and lt: "e c < unat E"
      and st: "fst (ctl_state (for_loop body xs (b, E))) = upd c b"
      and rt: "is_return (for_loop body xs (b, E)) \<longleftrightarrow> e c = 0"
      by (elim exE conjE)
    have "first_min valid e (x # xs) (x # pre) c post"
      using fm lt worse by (intro first_min_later) simp_all
    moreover have "fst (ctl_state (for_loop body (x # xs) (b, E))) = upd c b"
      using st by (simp only: r)
    moreover have "is_return (for_loop body (x # xs) (b, E)) \<longleftrightarrow> e c = 0"
      using rt by (simp only: r)
    ultimately show ?thesis using lt by (intro exI conjI)
  qed
qed

section \<open>The full search\<close>

lemma search_space_iff:
  "(dd, m, od) \<in> set search_space \<longleftrightarrow>
     1 \<le> dd \<and> dd \<le> 56 \<and> 2 \<le> m \<and> m \<le> 64 \<and> 1 \<le> od \<and> od \<le> 128"
  unfolding search_space_def set_product set_upt by auto

lemma three_loops_flat:
  "for_loop (\<lambda>x. for_loop (\<lambda>y. for_loop (B x y) (map h zs)) (map g ys)) (map f xs) s =
   for_loop (\<lambda>(x, y, z). B (f x) (g y) (h z)) (List.product xs (List.product ys zs)) s"
proof -
  have inner: "for_loop (\<lambda>y. for_loop (B x y) (map h zs)) (map g ys) s' =
      for_loop (\<lambda>(y, z). B x (g y) (h z)) (List.product ys zs) s'" for x s'
    unfolding for_loop_map by (rule for_loop_product)
  have "for_loop (\<lambda>x. for_loop (\<lambda>y. for_loop (B x y) (map h zs)) (map g ys)) (map f xs) s =
        for_loop (\<lambda>x. for_loop (\<lambda>(y, z). B (f x) (g y) (h z)) (List.product ys zs)) xs s"
    unfolding for_loop_map[of _ f] inner ..
  also have "\<dots> = for_loop (\<lambda>(x, y, z). B (f x) (g y) (h z))
                     (List.product xs (List.product ys zs)) s"
    by (rule for_loop_product)
  finally show ?thesis .
qed

lemma input_mult_div_loops_flat:
  "input_mult_div_loops inp outp =
     for_loop (flat_body (clk_freq inp) (clkout_freq outp)) search_space
       (inp\<lparr>clkfbout_mult := 0, divclk_divide := 0\<rparr>, - 1)"
proof -
  have b: "flat_body cf fq = (\<lambda>(dd, m, od).
      input_mult_div_body (ucast cf) (ucast fq) (of_nat dd) (of_nat m) (of_nat od))" for cf fq
    by (auto simp: flat_body_def fun_eq_iff)
  have e: "Suc 56 = 57" "Suc 64 = 65" "Suc 128 = 129" by simp_all
  show ?thesis
    unfolding input_mult_div_loops_def Let_def counter_range_def search_space_def b
      MMCM_CLKOUT_DIVIDE_MIN_def MMCM_CLKOUT_DIVIDE_MAX_def MMCM_FBOUT_MULTIPLY_MIN_def
      MMCM_FBOUT_MULTIPLY_MAX_def MMCM_DIVCLK_DIVIDE_MIN_def MMCM_DIVCLK_DIVIDE_MAX_def e
    by (rule three_loops_flat)
qed

lemma flat_body_step:
  assumes "c \<in> set search_space"
  shows "flat_body cf fq c (b, E) =
        (if vco_ok (unat cf) c \<and> freq_error (unat cf) (unat fq) c < unat E
         then (if freq_error (unat cf) (unat fq) c = 0 then Return (store_pair c b, E)
               else Next (store_pair c b, of_nat (freq_error (unat cf) (unat fq) c)))
         else Next (b, E))"
proof -
  obtain dd m od where c: "c = (dd, m, od)" by (cases c) auto
  have r: "1 \<le> dd" "dd \<le> 56" "2 \<le> m" "m \<le> 64" "1 \<le> od" "od \<le> 128"
    using assms unfolding c search_space_iff by simp_all
  show ?thesis
    unfolding c flat_body_def store_pair_def prod.case
    by (rule input_mult_div_body_nat[OF r])
qed

lemma first_min_mem:
  "first_min valid e cs pre c post \<Longrightarrow> c \<in> set cs \<and> valid c"
  by (auto simp: first_min_def)

lemma freq_error_small:
  assumes "vco_ok ref c" "tgt < 2 ^ 32"
  shows "freq_error ref tgt c < 2 ^ 64 - 1"
proof -
  obtain dd m od where c: "c = (dd, m, od)" by (cases c) auto
  have "vco_nat ref m dd \<le> 1600000000"
    using assms(1) by (simp add: c vco_ok_def vco_in_window_def)
  moreover have "vco_nat ref m dd div od \<le> vco_nat ref m dd" by simp
  ultimately have "vco_nat ref m dd div od \<le> 1600000000" by linarith
  then show ?thesis using assms(2) by (simp add: c freq_error_def)
qed

lemma store_pair_idem: "store_pair c (store_pair c' b) = store_pair c b"
  by (simp add: store_pair_def split_def)

lemma store_pair_nonzero:
  assumes "c \<in> set search_space"
  shows "clkfbout_mult (store_pair c b) \<noteq> 0" "divclk_divide (store_pair c b) \<noteq> 0"
proof -
  obtain dd m od where c: "c = (dd, m, od)" by (cases c) auto
  have r: "1 \<le> dd" "dd \<le> 56" "2 \<le> m" "m \<le> 64"
    using assms unfolding c search_space_iff by simp_all
  have "unat (of_nat m :: u32) = m" "unat (of_nat dd :: u32) = dd"
    using r by (simp_all add: unat_of_nat_u32)
  then have "unat (of_nat m :: u32) \<noteq> 0" "unat (of_nat dd :: u32) \<noteq> 0"
    using r by simp_all
  then have "(of_nat m :: u32) \<noteq> 0" "(of_nat dd :: u32) \<noteq> 0"
    by (simp_all only: unat_eq_0 not_False_eq_True)
  then show "clkfbout_mult (store_pair c b) \<noteq> 0" "divclk_divide (store_pair c b) \<noteq> 0"
    by (simp_all add: c store_pair_def)
qed

lemma search_feasible:
  fixes inp :: logiclk_input and outp :: logiclk_output
  defines "ref \<equiv> unat (clk_freq inp)" and "tgt \<equiv> unat (clkout_freq outp)"
  assumes some: "\<exists>c\<in>set search_space. vco_ok ref c"
  shows "\<exists>pre c post. first_min (vco_ok ref) (freq_error ref tgt) search_space pre c post \<and>
           logiclk_pll_input_mult_div inp outp = (0, store_pair c inp) \<and>
           (is_return (input_mult_div_loops inp outp) \<longleftrightarrow> freq_error ref tgt c = 0)"
proof -
  let ?b0 = "inp\<lparr>clkfbout_mult := 0, divclk_divide := 0\<rparr>"
  let ?r = "for_loop (flat_body (clk_freq inp) (clkout_freq outp)) search_space (?b0, - 1)"
  have tgt: "tgt < 2 ^ 32"
    unfolding tgt_def using unsigned_less[of "clkout_freq outp"] by simp
  have m1: "unat (- 1 :: u64) = 2 ^ 64 - 1" by (simp add: unsigned_minus_1_eq_mask mask_eq_exp_minus_1)
  have some': "\<exists>c\<in>set search_space. vco_ok ref c \<and> freq_error ref tgt c < unat (- 1 :: u64)"
    using some freq_error_small[OF _ tgt] unfolding m1 by blast
  have "\<exists>pre c post. first_min (vco_ok ref) (freq_error ref tgt) search_space pre c post \<and>
           freq_error ref tgt c < unat (- 1 :: u64) \<and>
           fst (ctl_state ?r) = store_pair c ?b0 \<and>
           (is_return ?r \<longleftrightarrow> freq_error ref tgt c = 0)"
  proof (rule for_loop_first_min)
    show "flat_body (clk_freq inp) (clkout_freq outp) c (b, E) =
        (if vco_ok ref c \<and> freq_error ref tgt c < unat E
         then (if freq_error ref tgt c = 0 then Return (store_pair c b, E)
               else Next (store_pair c b, of_nat (freq_error ref tgt c)))
         else Next (b, E))" if "c \<in> set search_space" for c b E
      unfolding ref_def tgt_def using that by (rule flat_body_step)
    show "freq_error ref tgt c < 2 ^ 64" if "c \<in> set search_space" "vco_ok ref c" for c
      using freq_error_small[OF that(2) tgt] by simp
    show "store_pair c (store_pair c' b) = store_pair c b" for c c' b
      by (rule store_pair_idem)
    show "\<exists>c\<in>set search_space. vco_ok ref c \<and> freq_error ref tgt c < unat (- 1 :: u64)"
      by (rule some')
  qed
  then obtain pre c post where fm: "first_min (vco_ok ref) (freq_error ref tgt) search_space pre c post"
    and st: "fst (ctl_state ?r) = store_pair c ?b0"
    and rt: "is_return ?r \<longleftrightarrow> freq_error ref tgt c = 0"
    by (elim exE conjE)
  have cin: "c \<in> set search_space"
    using first_min_mem[OF fm] by simp
  have st': "fst (ctl_state ?r) = store_pair c inp"
    unfolding st by (simp add: store_pair_def split_def)
  have nz: "clkfbout_mult (fst (ctl_state ?r)) \<noteq> 0" "divclk_divide (fst (ctl_state ?r)) \<noteq> 0"
    unfolding st' by (rule store_pair_nonzero[OF cin])+
  have res: "logiclk_pll_input_mult_div inp outp = (0, fst (ctl_state ?r))"
    unfolding logiclk_pll_input_mult_div_def input_mult_div_loops_flat
    using nz by (cases ?r) simp_all
  have res': "logiclk_pll_input_mult_div inp outp = (0, store_pair c inp)"
    unfolding res st' ..
  have rt': "is_return (input_mult_div_loops inp outp) \<longleftrightarrow> freq_error ref tgt c = 0"
    unfolding input_mult_div_loops_flat by (rule rt)
  show ?thesis
    using fm res' rt' by (intro exI conjI)
qed

lemma search_infeasible:
  assumes none: "\<forall>c\<in>set search_space. \<not> vco_ok (unat (clk_freq inp)) c"
  shows "logiclk_pll_input_mult_div inp outp =
           (- EINVAL, inp\<lparr>clkfbout_mult := 0, divclk_divide := 0\<rparr>)"
proof -
  let ?b0 = "inp\<lparr>clkfbout_mult := 0, divclk_divide := 0\<rparr>"
  have "for_loop (flat_body (clk_freq inp) (clkout_freq outp)) search_space (?b0, - 1) =
          Next (?b0, - 1)"
  proof (rule for_loop_no_improvement)
    fix c assume c: "c \<in> set search_space"
    then have "\<not> vco_ok (unat (clk_freq inp)) c" using none by blast
    then show "flat_body (clk_freq inp) (clkout_freq outp) c (?b0, - 1) = Next (?b0, - 1)"
      unfolding flat_body_step[OF c] by simp
  qed
  then show ?thesis
    unfolding logiclk_pll_input_mult_div_def input_mult_div_loops_flat by simp
qed

lemma feasible_empty_iff:
  "feasible ref = [] \<longleftrightarrow> (\<forall>c\<in>set search_space. \<not> vco_ok ref c)"
  by (simp add: feasible_def filter_empty_conv)

lemma store_pair_triple:
  "store_pair (dd, m, od) inp = inp\<lparr>clkfbout_mult := of_nat m, divclk_divide := of_nat dd\<rparr>"
  by (simp add: store_pair_def)

text \<open>
  \<^bold>\<open>C2.\<close> The full search \<^verbatim>\<open>logiclk_pll_input_mult_div\<close> walks pre-divider 1..56
  (outer), multiplier 2..64 (middle) and output divider 1..128 (inner), looks only at
  combinations whose VCO frequency \<open>\<lfloor>reference \<times> multiplier / pre-divider\<rfloor>\<close> lies in
  [600 MHz, 1600 MHz], and on success stores the multiplier and pre-divider of the first
  combination in that order that attains the least error
  \<open>\<bar>\<lfloor>VCO / output divider\<rfloor> - target\<bar>\<close>. It leaves the loops by \<^verbatim>\<open>return\<close> exactly when
  that error is 0, and it fails (with \<^verbatim>\<open>-EINVAL\<close>) exactly when no combination is in the
  VCO window.
\<close>

theorem full_search_first_minimum:
  "(fst (logiclk_pll_input_mult_div inp outp) = - EINVAL \<longleftrightarrow>
      feasible (unat (clk_freq inp)) = []) \<and>
   (fst (logiclk_pll_input_mult_div inp outp) = 0 \<longleftrightarrow>
      feasible (unat (clk_freq inp)) \<noteq> []) \<and>
   (feasible (unat (clk_freq inp)) \<noteq> [] \<longrightarrow>
      (\<exists>pre dd m od post.
         first_min (vco_ok (unat (clk_freq inp)))
           (freq_error (unat (clk_freq inp)) (unat (clkout_freq outp)))
           search_space pre (dd, m, od) post \<and>
         snd (logiclk_pll_input_mult_div inp outp) =
           inp\<lparr>clkfbout_mult := of_nat m, divclk_divide := of_nat dd\<rparr> \<and>
         (is_return (input_mult_div_loops inp outp) \<longleftrightarrow>
            freq_error (unat (clk_freq inp)) (unat (clkout_freq outp)) (dd, m, od) = 0)))"
proof (cases "feasible (unat (clk_freq inp)) = []")
  case True
  then have "logiclk_pll_input_mult_div inp outp =
           (- EINVAL, inp\<lparr>clkfbout_mult := 0, divclk_divide := 0\<rparr>)"
    unfolding feasible_empty_iff by (rule search_infeasible)
  then show ?thesis using True by (simp add: EINVAL_def)
next
  case False
  then have "\<exists>c\<in>set search_space. vco_ok (unat (clk_freq inp)) c"
    unfolding feasible_empty_iff by blast
  from search_feasible[OF this, of outp]
  obtain pre c post where fm: "first_min (vco_ok (unat (clk_freq inp)))
           (freq_error (unat (clk_freq inp)) (unat (clkout_freq outp))) search_space pre c post"
    and res: "logiclk_pll_input_mult_div inp outp = (0, store_pair c inp)"
    and rt: "is_return (input_mult_div_loops inp outp) \<longleftrightarrow>
            freq_error (unat (clk_freq inp)) (unat (clkout_freq outp)) c = 0"
    by (elim exE conjE)
  obtain dd m od where c: "c = (dd, m, od)" by (cases c) auto
  have "first_min (vco_ok (unat (clk_freq inp)))
           (freq_error (unat (clk_freq inp)) (unat (clkout_freq outp)))
           search_space pre (dd, m, od) post \<and>
         snd (logiclk_pll_input_mult_div inp outp) =
           inp\<lparr>clkfbout_mult := of_nat m, divclk_divide := of_nat dd\<rparr> \<and>
         (is_return (input_mult_div_loops inp outp) \<longleftrightarrow>
            freq_error (unat (clk_freq inp)) (unat (clkout_freq outp)) (dd, m, od) = 0)"
    using fm rt unfolding res c store_pair_triple by simp
  then have "\<exists>pre dd m od post.
         first_min (vco_ok (unat (clk_freq inp)))
           (freq_error (unat (clk_freq inp)) (unat (clkout_freq outp)))
           search_space pre (dd, m, od) post \<and>
         snd (logiclk_pll_input_mult_div inp outp) =
           inp\<lparr>clkfbout_mult := of_nat m, divclk_divide := of_nat dd\<rparr> \<and>
         (is_return (input_mult_div_loops inp outp) \<longleftrightarrow>
            freq_error (unat (clk_freq inp)) (unat (clkout_freq outp)) (dd, m, od) = 0)"
    by (intro exI)
  then show ?thesis using False res by (simp add: EINVAL_def)
qed

lemma ex_feasible: "(1, 6, 1) \<in> set search_space \<and> vco_ok 100000000 (1, 6, 1)"
  by (simp add: search_space_iff vco_ok_def vco_in_window_def vco_nat_def)

lemma ex_feasible_nonempty: "feasible 100000000 \<noteq> []"
  unfolding feasible_empty_iff using ex_feasible by blast

theorem full_search_first_minimum_witness:
  "feasible (unat (clk_freq ex_input)) \<noteq> [] \<and>
   fst (logiclk_pll_input_mult_div ex_input (ex_channel 0 True)) = 0"
  using full_search_first_minimum[of ex_input "ex_channel 0 True"] ex_feasible_nonempty
  by (simp add: ex_input_def)

text \<open>
  \<^bold>\<open>C5.\<close> Whenever the full search succeeds, the input stage it leaves satisfies
  2 \<le> multiplier \<le> 64, 1 \<le> pre-divider \<le> 56 and
  600 MHz \<le> \<open>\<lfloor>reference \<times> multiplier / pre-divider\<rfloor>\<close> \<le> 1600 MHz.
\<close>

theorem full_search_vco_invariant:
  assumes "fst (logiclk_pll_input_mult_div inp outp) = 0"
  shows "2 \<le> unat (clkfbout_mult (snd (logiclk_pll_input_mult_div inp outp))) \<and>
         unat (clkfbout_mult (snd (logiclk_pll_input_mult_div inp outp))) \<le> 64 \<and>
         1 \<le> unat (divclk_divide (snd (logiclk_pll_input_mult_div inp outp))) \<and>
         unat (divclk_divide (snd (logiclk_pll_input_mult_div inp outp))) \<le> 56 \<and>
         600000000 \<le>
           unat (clk_freq (snd (logiclk_pll_input_mult_div inp outp))) *
           unat (clkfbout_mult (snd (logiclk_pll_input_mult_div inp outp))) div
           unat (divclk_divide (snd (logiclk_pll_input_mult_div inp outp))) \<and>
         unat (clk_freq (snd (logiclk_pll_input_mult_div inp outp))) *
           unat (clkfbout_mult (snd (logiclk_pll_input_mult_div inp outp))) div
           unat (divclk_divide (snd (logiclk_pll_input_mult_div inp outp))) \<le> 1600000000"
proof -
  have some: "\<exists>c\<in>set search_space. vco_ok (unat (clk_freq inp)) c"
  proof (rule ccontr)
    assume "\<not> ?thesis"
    then have "logiclk_pll_input_mult_div inp outp =
           (- EINVAL, inp\<lparr>clkfbout_mult := 0, divclk_divide := 0\<rparr>)"
      by (intro search_infeasible) blast
    then show False using assms by (simp add: EINVAL_def)
  qed
  from search_feasible[OF this, of outp]
  obtain pre c post where fm: "first_min (vco_ok (unat (clk_freq inp)))
           (freq_error (unat (clk_freq inp)) (unat (clkout_freq outp))) search_space pre c post"
    and res: "logiclk_pll_input_mult_div inp outp = (0, store_pair c inp)"
    by (elim exE conjE)
  obtain dd m od where c: "c = (dd, m, od)" by (cases c) auto
  have mem: "(dd, m, od) \<in> set search_space" and ok: "vco_ok (unat (clk_freq inp)) (dd, m, od)"
    using first_min_mem[OF fm] unfolding c by simp_all
  have r: "1 \<le> dd" "dd \<le> 56" "2 \<le> m" "m \<le> 64"
    using mem unfolding search_space_iff by simp_all
  have u: "unat (of_nat m :: u32) = m" "unat (of_nat dd :: u32) = dd"
    using r by (simp_all add: unat_of_nat_u32)
  show ?thesis
    using r ok unfolding res c store_pair_triple
    by (simp add: u vco_ok_def vco_in_window_def vco_nat_def)
qed

theorem full_search_vco_invariant_witness:
  "fst (logiclk_pll_input_mult_div ex_input (ex_channel 0 True)) = 0 \<and>
   2 \<le> unat (clkfbout_mult (snd (logiclk_pll_input_mult_div ex_input (ex_channel 0 True)))) \<and>
   600000000 \<le>
     unat (clk_freq (snd (logiclk_pll_input_mult_div ex_input (ex_channel 0 True)))) *
     unat (clkfbout_mult (snd (logiclk_pll_input_mult_div ex_input (ex_channel 0 True)))) div
     unat (divclk_divide (snd (logiclk_pll_input_mult_div ex_input (ex_channel 0 True))))"
proof -
  have "\<exists>c\<in>set search_space. vco_ok (unat (clk_freq ex_input)) c"
    using ex_feasible by (auto simp: ex_input_def)
  from search_feasible[OF this, of "ex_channel 0 True"]
  have ok: "fst (logiclk_pll_input_mult_div ex_input (ex_channel 0 True)) = 0"
    by auto
  show ?thesis
    using full_search_vco_invariant[OF ok] ok by simp
qed

section \<open>The output-divider search\<close>

lemma counter_range_bounds:
  assumes "x \<in> set (counter_range MMCM_CLKOUT_DIVIDE_MIN MMCM_CLKOUT_DIVIDE_MAX :: u32 list)"
  shows "1 \<le> x \<and> x \<le> 128"
proof -
  obtain n where n: "x = of_nat n" "1 \<le> n" "n \<le> 128"
    using assms
    by (auto simp: counter_range_def MMCM_CLKOUT_DIVIDE_MIN_def MMCM_CLKOUT_DIVIDE_MAX_def
        simp del: upt_Suc)
  have "unat x = n" unfolding n(1) using n(3) by (simp add: unat_of_nat_u32)
  then show ?thesis using n by (simp add: word_le_nat_alt)
qed

lemma output_div_loop_mem:
  "fst (ctl_state (for_loop (output_div_body f fo) cs s)) \<in> insert (fst s) (set cs)"
proof (induction cs arbitrary: s)
  case Nil
  show ?case by simp
next
  case (Cons c cs)
  show ?case
    using Cons.IH[of "(c, abs64 (div_u64 f c - fo))"] Cons.IH[of s]
    by (auto simp: output_div_body_def Let_def)
qed

lemma output_div_body_first:
  "fst (ctl_state (output_div_body f fo c (z, - 1))) = c"
  using abs64_less_max[of "div_u64 f c - fo"]
  by (simp add: output_div_body_def Let_def)

lemma output_div_loop_range:
  assumes "cs \<noteq> []"
  shows "fst (ctl_state (for_loop (output_div_body f fo) cs (z, - 1))) \<in> set cs"
proof -
  obtain c rest where cs: "cs = c # rest" using assms by (cases cs) auto
  have lt: "abs64 (div_u64 f c - fo) < - 1" by (rule abs64_less_max)
  show ?thesis
    using lt output_div_loop_mem[of f fo rest "(c, abs64 (div_u64 f c - fo))"]
    unfolding cs by (auto simp: output_div_body_def Let_def)
qed

lemma counter_range_nonempty:
  "(counter_range MMCM_CLKOUT_DIVIDE_MIN MMCM_CLKOUT_DIVIDE_MAX :: u32 list) \<noteq> []"
  by (simp add: counter_range_def MMCM_CLKOUT_DIVIDE_MIN_def MMCM_CLKOUT_DIVIDE_MAX_def
      del: upt_Suc)

lemma output_div_some:
  assumes "divclk_divide inp \<noteq> 0"
  shows "\<exists>r. logiclk_pll_output_div inp outp = Some r \<and> 1 \<le> r \<and> r \<le> 128"
proof -
  let ?f = "div_u64 (ucast (clk_freq inp) * ucast (clkfbout_mult inp)) (divclk_divide inp)"
  let ?r = "fst (ctl_state (for_loop (output_div_body ?f (ucast (clkout_freq outp)))
                  (counter_range MMCM_CLKOUT_DIVIDE_MIN MMCM_CLKOUT_DIVIDE_MAX) (0, - 1)))"
  have "logiclk_pll_output_div inp outp = Some ?r"
    using assms by (simp add: logiclk_pll_output_div_def div_u64_chk_def Let_def)
  moreover have "1 \<le> ?r \<and> ?r \<le> 128"
    by (rule counter_range_bounds, rule output_div_loop_range, rule counter_range_nonempty)
  ultimately show ?thesis by blast
qed

text \<open>
  \<^bold>\<open>C9.\<close> For every input state with a pre-divider that is not zero (any reference
  frequency, any multiplier) and every target frequency, the output-divider search
  \<^verbatim>\<open>logiclk_pll_output_div\<close> returns a divider in 1..128. Its 0 initialiser is never
  returned, because the first candidate always strictly improves on the initial error
  \<^verbatim>\<open>(u64)-1\<close>. The pre-divider of a device is checked to lie in 1..56 when it is read.
\<close>

theorem output_div_in_range:
  "(divclk_divide inp \<noteq> 0 \<longrightarrow>
      (\<exists>r. logiclk_pll_output_div inp outp = Some r \<and> 1 \<le> r \<and> r \<le> 128)) \<and>
   fst (ctl_state (output_div_body freq_mult_div freq_out 1 (0, - 1))) = 1"
  using output_div_some[of inp outp] output_div_body_first[of freq_mult_div freq_out 1 0]
  by blast

theorem output_div_in_range_witness:
  "divclk_divide ex_input \<noteq> 0 \<and>
   (\<exists>r. logiclk_pll_output_div ex_input (ex_channel 1 False) = Some r \<and> 1 \<le> r \<and> r \<le> 128)"
  using output_div_in_range[of ex_input "ex_channel 1 False"]
  by (simp add: ex_input_def)

section \<open>Shared registers and the update protocol\<close>

lemma lut_index:
  assumes "2 \<le> m" "m \<le> (64 :: u32)"
  shows "logiclk_pll_lut_filter (m - 1) bw =
           Some ((if bw then lut_high else lut_low) ! (unat m - 2))"
    and "logiclk_pll_lut_lock (m - 1) = Some (lut_lock ! (unat m - 2))"
proof -
  have M: "2 \<le> unat m" "unat m \<le> 64"
    using assms by (simp_all add: word_le_nat_alt)
  have i: "unat (m - 2) = unat m - 2"
    using M by (simp add: unat_sub word_le_nat_alt)
  have len: "length lut_high = 64" "length lut_low = 64" "length lut_lock = 64"
    by (simp_all add: lut_high_def lut_low_def lut_lock_def)
  have lt: "unat m - 2 < 64" using M by simp
  show "logiclk_pll_lut_filter (m - 1) bw =
           Some ((if bw then lut_high else lut_low) ! (unat m - 2))"
    using lt by (simp add: logiclk_pll_lut_filter_def array_read_def i len)
  show "logiclk_pll_lut_lock (m - 1) = Some (lut_lock ! (unat m - 2))"
    using lt by (simp add: logiclk_pll_lut_lock_def array_read_def i len)
qed

lemma man_reg_params_shared:
  assumes "logiclk_pll_lut_filter (clkfbout_mult inp - 1) (bw_high inp) = Some f"
    and "logiclk_pll_lut_lock (clkfbout_mult inp - 1) = Some l"
    and "length regs = 21"
  shows "\<exists>r. logiclk_man_reg_params inp outp regs = Some r \<and>
           r ! 0 = 0xFFFF \<and>
           r ! 16 = logiclk_get_bits l 29 20 \<and>
           r ! 17 = (push_bit 10 (logiclk_get_bits l 34 30) OR logiclk_get_bits l 9 0) \<and>
           r ! 18 = (push_bit 10 (logiclk_get_bits l 39 35) OR logiclk_get_bits l 19 10) \<and>
           r ! 19 = (push_bit 8 (logiclk_get_bits (ucast f) 6 6) OR
                     push_bit 11 (logiclk_get_bits (ucast f) 8 7) OR
                     push_bit 15 (logiclk_get_bits (ucast f) 9 9)) \<and>
           r ! 20 = (push_bit 4 (logiclk_get_bits (ucast f) 0 0) OR
                     push_bit 7 (logiclk_get_bits (ucast f) 2 1) OR
                     push_bit 11 (logiclk_get_bits (ucast f) 4 3) OR
                     push_bit 15 (logiclk_get_bits (ucast f) 5 5))"
  using assms by (simp add: logiclk_man_reg_params_def Let_def)

lemma lut_entries:
  "lut_high ! 1 = 0x3FC" "lut_high ! 2 = 0x3F4"
  "lut_lock ! 1 = 0x31BE8FA401" "lut_lock ! 2 = 0x423E8FA401"
  by (simp_all add: lut_high_def lut_lock_def)

lemma decode_3FC:
  "filter_of_regs
     (push_bit 8 (logiclk_get_bits (ucast (0x3FC :: u32)) 6 6) OR
      push_bit 11 (logiclk_get_bits (ucast (0x3FC :: u32)) 8 7) OR
      push_bit 15 (logiclk_get_bits (ucast (0x3FC :: u32)) 9 9))
     (push_bit 4 (logiclk_get_bits (ucast (0x3FC :: u32)) 0 0) OR
      push_bit 7 (logiclk_get_bits (ucast (0x3FC :: u32)) 2 1) OR
      push_bit 11 (logiclk_get_bits (ucast (0x3FC :: u32)) 4 3) OR
      push_bit 15 (logiclk_get_bits (ucast (0x3FC :: u32)) 5 5)) = 0x3FC"
  by (simp add: filter_of_regs_def logiclk_get_bits_def)

lemma decode_lock:
  "lock_of_regs
     (logiclk_get_bits 0x31BE8FA401 29 20)
     (push_bit 10 (logiclk_get_bits 0x31BE8FA401 34 30) OR logiclk_get_bits 0x31BE8FA401 9 0)
     (push_bit 10 (logiclk_get_bits 0x31BE8FA401 39 35) OR logiclk_get_bits 0x31BE8FA401 19 10)
   = 0x31BE8FA401"
  by (simp add: lock_of_regs_def logiclk_get_bits_def)

text \<open>
  \<^bold>\<open>C3.\<close> The code at multiplier 3 in high-bandwidth mode: the filter value packed into
  registers 19 and 20 and the lock value packed into registers 16 to 18 are the table
  entries at index 1, that is \<open>m - 2\<close>, and these differ from the entries at index
  \<open>m - 1 = 2\<close>. \<^verbatim>\<open>logiclk_man_reg_params\<close> passes \<^verbatim>\<open>clkfbout_mult - 1\<close> to helpers that
  subtract 1 once more (\<open>lut_index\<close> gives the index for every multiplier in 2..64).
\<close>

theorem man_reg_params_reads_entry_below:
  "logiclk_man_reg_params mult3_input (ex_channel 0 True) (replicate 21 0) \<noteq> None \<and>
   filter_of_regs
     (the (logiclk_man_reg_params mult3_input (ex_channel 0 True) (replicate 21 0)) ! 19)
     (the (logiclk_man_reg_params mult3_input (ex_channel 0 True) (replicate 21 0)) ! 20)
     = lut_high ! 1 \<and>
   lut_high ! 1 \<noteq> lut_high ! 2 \<and>
   lock_of_regs
     (the (logiclk_man_reg_params mult3_input (ex_channel 0 True) (replicate 21 0)) ! 16)
     (the (logiclk_man_reg_params mult3_input (ex_channel 0 True) (replicate 21 0)) ! 17)
     (the (logiclk_man_reg_params mult3_input (ex_channel 0 True) (replicate 21 0)) ! 18)
     = lut_lock ! 1 \<and>
   lut_lock ! 1 \<noteq> lut_lock ! 2"
proof -
  have m: "clkfbout_mult mult3_input = 3" "bw_high mult3_input = True"
    by (simp_all add: mult3_input_def ex_input_def)
  have f: "logiclk_pll_lut_filter (clkfbout_mult mult3_input - 1) (bw_high mult3_input) =
             Some 0x3FC"
    and l: "logiclk_pll_lut_lock (clkfbout_mult mult3_input - 1) = Some 0x31BE8FA401"
    using lut_index(1)[of 3 True] lut_index(2)[of 3] unfolding m
    by (simp_all add: lut_high_def lut_lock_def)
  from man_reg_params_shared[OF f l, of "replicate 21 0" "ex_channel 0 True"]
  obtain r where r: "logiclk_man_reg_params mult3_input (ex_channel 0 True) (replicate 21 0) = Some r"
    and regs: "r ! 16 = logiclk_get_bits 0x31BE8FA401 29 20"
      "r ! 17 = (push_bit 10 (logiclk_get_bits 0x31BE8FA401 34 30) OR
                 logiclk_get_bits 0x31BE8FA401 9 0)"
      "r ! 18 = (push_bit 10 (logiclk_get_bits 0x31BE8FA401 39 35) OR
                 logiclk_get_bits 0x31BE8FA401 19 10)"
      "r ! 19 = (push_bit 8 (logiclk_get_bits (ucast (0x3FC :: u32)) 6 6) OR
                 push_bit 11 (logiclk_get_bits (ucast (0x3FC :: u32)) 8 7) OR
                 push_bit 15 (logiclk_get_bits (ucast (0x3FC :: u32)) 9 9))"
      "r ! 20 = (push_bit 4 (logiclk_get_bits (ucast (0x3FC :: u32)) 0 0) OR
                 push_bit 7 (logiclk_get_bits (ucast (0x3FC :: u32)) 2 1) OR
                 push_bit 11 (logiclk_get_bits (ucast (0x3FC :: u32)) 4 3) OR
                 push_bit 15 (logiclk_get_bits (ucast (0x3FC :: u32)) 5 5))"
    by auto
  show ?thesis
    unfolding r option.sel regs decode_3FC decode_lock lut_entries by simp
qed

lemma small_ref_infeasible:
  assumes "ref * 64 < 600000000"
  shows "\<forall>c\<in>set search_space. \<not> vco_ok ref c"
proof
  fix c assume cin: "c \<in> set search_space"
  obtain dd m od where c: "c = (dd, m, od)" by (cases c) auto
  have "m \<le> 64" using cin unfolding c search_space_iff by simp
  then have "ref * m \<le> ref * 64" by simp
  moreover have "ref * m div dd \<le> ref * m" by simp
  ultimately have "vco_nat ref m dd < 600000000"
    using assms unfolding vco_nat_def by linarith
  then show "\<not> vco_ok ref c"
    by (simp add: c vco_ok_def vco_in_window_def)
qed

lemma calc_params_search_failure:
  assumes p: "precise (output_arr d ! i)"
    and r: "MMCM_OUTPUT_FREQ_MIN \<le> clkout_freq (output_arr d ! i)"
           "clkout_freq (output_arr d ! i) \<le> MMCM_OUTPUT_FREQ_MAX"
    and none: "\<forall>c\<in>set search_space. \<not> vco_ok (unat (clk_freq (input d))) c"
  shows "logiclk_calc_params d i =
           Some (- EINVAL, d\<lparr>input := (input d)\<lparr>clkfbout_mult := 0, divclk_divide := 0\<rparr>\<rparr>)"
  using p r
  by (simp add: logiclk_calc_params_def Let_def search_infeasible[OF none] EINVAL_def
      not_less[symmetric])

lemma rate_rollback_search_failure:
  assumes i: "i < length (output_arr d)"
    and p: "precise (output_arr d ! i)"
    and r: "MMCM_OUTPUT_FREQ_MIN \<le> rate" "rate \<le> MMCM_OUTPUT_FREQ_MAX"
    and none: "\<forall>c\<in>set search_space. \<not> vco_ok (unat (clk_freq (input d))) c"
  defines "d' \<equiv> d\<lparr>input := (input d)\<lparr>clkfbout_mult := 0, divclk_divide := 0\<rparr>,
                    output_stack := output_arr d ! i, man_regs_stack := man_regs d\<rparr>"
  shows "logiclk_round_rate d i rate = Some (- EINVAL, d')"
    and "rate \<noteq> clkout_freq (output_arr d ! i) \<Longrightarrow>
         logiclk_set_rate lock_at d i rate = Some (- EINVAL, d')"
proof -
  let ?d1 = "set_clkout_freq (stack_push d i) i rate"
  have o: "output_arr ?d1 ! i = (output_arr d ! i)\<lparr>clkout_freq := rate\<rparr>"
    using i by (simp add: set_clkout_freq_def stack_push_def)
  have inp: "input ?d1 = input d"
    by (simp add: set_clkout_freq_def stack_push_def)
  have "logiclk_calc_params ?d1 i =
           Some (- EINVAL, ?d1\<lparr>input := (input ?d1)\<lparr>clkfbout_mult := 0, divclk_divide := 0\<rparr>\<rparr>)"
    by (rule calc_params_search_failure) (use p r none in \<open>simp_all add: o inp\<close>)
  moreover have "stack_pop (?d1\<lparr>input := (input ?d1)\<lparr>clkfbout_mult := 0, divclk_divide := 0\<rparr>\<rparr>) i = d'"
    using i by (simp add: stack_pop_def set_clkout_freq_def stack_push_def d'_def)
  ultimately show "logiclk_round_rate d i rate = Some (- EINVAL, d')"
    and "rate \<noteq> clkout_freq (output_arr d ! i) \<Longrightarrow>
         logiclk_set_rate lock_at d i rate = Some (- EINVAL, d')"
    by (simp_all add: logiclk_round_rate_def logiclk_set_rate_def Let_def EINVAL_def)
qed

text \<open>What the failure path of the full search would do on a reference the device-tree
  check refuses (5 MHz): the rate change returns \<^verbatim>\<open>-EINVAL\<close>, the six channels and the
  register image are as before, and the input stage is left with multiplier 0 and
  pre-divider 0.\<close>

lemma refused_reference_clears_input_stage:
  "logiclk_round_rate starved_data 0 50000000 =
     Some (- EINVAL,
           starved_data\<lparr>input := (input starved_data)\<lparr>clkfbout_mult := 0,
                                                         divclk_divide := 0\<rparr>\<rparr>) \<and>
   logiclk_set_rate lock_at starved_data 0 50000000 =
     Some (- EINVAL,
           starved_data\<lparr>input := (input starved_data)\<lparr>clkfbout_mult := 0,
                                                         divclk_divide := 0\<rparr>\<rparr>) \<and>
   clkfbout_mult (input starved_data) = 8 \<and> divclk_divide (input starved_data) = 1"
proof -
  have none: "\<forall>c\<in>set search_space. \<not> vco_ok (unat (clk_freq (input starved_data))) c"
    by (rule small_ref_infeasible) (simp add: starved_data_def ex_data_def)
  have i: "0 < length (output_arr starved_data)"
    and p: "precise (output_arr starved_data ! 0)"
    and r: "MMCM_OUTPUT_FREQ_MIN \<le> 50000000" "(50000000 :: u32) \<le> MMCM_OUTPUT_FREQ_MAX"
    and ne: "(50000000 :: u32) \<noteq> clkout_freq (output_arr starved_data ! 0)"
    by (simp_all add: starved_data_def ex_data_def ex_channel_def MMCM_OUTPUT_FREQ_MIN_def
        MMCM_OUTPUT_FREQ_MAX_def)
  have same: "starved_data\<lparr>input := (input starved_data)\<lparr>clkfbout_mult := 0, divclk_divide := 0\<rparr>,
                    output_stack := output_arr starved_data ! 0,
                    man_regs_stack := man_regs starved_data\<rparr> =
              starved_data\<lparr>input := (input starved_data)\<lparr>clkfbout_mult := 0,
                                                            divclk_divide := 0\<rparr>\<rparr>"
    by (simp add: starved_data_def ex_data_def)
  show ?thesis
    using rate_rollback_search_failure(1)[OF i p r none]
      rate_rollback_search_failure(2)[OF i p r none ne, of lock_at]
    unfolding same
    by (simp add: starved_data_def ex_data_def ex_input_def)
qed

section \<open>Which registers a rate change writes\<close>

lemma reg_write_Some:
  "reg_write regs i v = Some r \<Longrightarrow> r = regs[i := v]"
  by (simp add: reg_write_def split: if_splits)

lemma man_reg_params_id_frame:
  assumes "logiclk_man_reg_params_id inp outp ident regs = Some (outp', regs')"
  shows "length regs' = length regs"
    and "k \<noteq> 1 + unat ident * 2 \<Longrightarrow> k \<noteq> 2 + unat ident * 2 \<Longrightarrow> regs' ! k = regs ! k"
  using assms
  by (auto simp: logiclk_man_reg_params_id_def Let_def LOGICLK_PLL_REG_OFF_def
      dest!: reg_write_Some split: option.splits)

lemma man_reg_params_id_at_frame:
  assumes "man_reg_params_id_at d i = Some d'"
  shows "length (man_regs d') = length (man_regs d)"
    and "k \<noteq> 1 + unat (id_u8 (output_arr d ! i)) * 2 \<Longrightarrow>
         k \<noteq> 2 + unat (id_u8 (output_arr d ! i)) * 2 \<Longrightarrow> man_regs d' ! k = man_regs d ! k"
    and "man_regs_stack d' = man_regs_stack d"
proof -
  obtain outp' regs' where
    a: "logiclk_man_reg_params_id (input d) (output_arr d ! i)
          (ucast (id_u8 (output_arr d ! i))) (man_regs d) = Some (outp', regs')"
    and d': "d' = d\<lparr>output_arr := (output_arr d)[i := outp'], man_regs := regs'\<rparr>"
    using assms by (auto simp: man_reg_params_id_at_def split: option.splits)
  have u: "unat (ucast (id_u8 (output_arr d ! i)) :: u32) = unat (id_u8 (output_arr d ! i))"
  proof -
    have "unat (id_u8 (output_arr d ! i)) < 2 ^ 8"
      using unsigned_less[of "id_u8 (output_arr d ! i)"] by simp
    then show ?thesis
      by (simp add: unsigned_ucast_eq take_bit_nat_eq_self)
  qed
  show "length (man_regs d') = length (man_regs d)"
    using man_reg_params_id_frame(1)[OF a] by (simp add: d')
  show "man_regs d' ! k = man_regs d ! k"
    if "k \<noteq> 1 + unat (id_u8 (output_arr d ! i)) * 2"
       "k \<noteq> 2 + unat (id_u8 (output_arr d ! i)) * 2"
    using man_reg_params_id_frame(2)[OF a, of k] that by (simp add: d' u)
  show "man_regs_stack d' = man_regs_stack d" by (simp add: d')
qed

lemma man_reg_params_id_some:
  assumes "divclk_divide inp \<noteq> 0" "unat ident < 10"
  shows "\<exists>r. logiclk_man_reg_params_id inp outp ident regs = Some r"
proof -
  obtain od where od: "logiclk_pll_output_div inp outp = Some od" "1 \<le> od"
    using output_div_some[OF assms(1), of outp] by blast
  have "od \<noteq> 0" using od(2) by auto
  then show ?thesis
    using assms od(1)
    by (simp add: logiclk_man_reg_params_id_def Let_def div_u64_chk_def reg_write_def
        LOGICLK_PLL_REG_OFF_def LOGICLK_MANUAL_REGS_def)
qed

lemma calc_params_non_precise:
  assumes "\<not> precise (output_arr d ! i)"
  shows "logiclk_calc_params d i =
           (if clkout_freq (output_arr d ! i) < MMCM_OUTPUT_FREQ_MIN \<or>
               clkout_freq (output_arr d ! i) > MMCM_OUTPUT_FREQ_MAX
            then Some (- EINVAL, d)
            else (case man_reg_params_id_at d i of None \<Rightarrow> None | Some d1 \<Rightarrow> Some (0, d1)))"
  using assms by (simp add: logiclk_calc_params_def Let_def)

text \<open>The register image after a rate change on a channel that is not the precise one.\<close>

lemma rate_change_non_precise:
  assumes i: "i < length (output_arr d)" and np: "\<not> precise (output_arr d ! i)"
    and res: "logiclk_round_rate d i rate = Some (ret, d') \<or>
              logiclk_set_rate lock_at d i rate = Some (ret, d')"
  shows "length (man_regs d') = length (man_regs d)"
    and "k \<noteq> 1 + unat (id_u8 (output_arr d ! i)) * 2 \<Longrightarrow>
         k \<noteq> 2 + unat (id_u8 (output_arr d ! i)) * 2 \<Longrightarrow> man_regs d' ! k = man_regs d ! k"
proof -
  let ?d1 = "set_clkout_freq (stack_push d i) i rate"
  have o: "output_arr ?d1 ! i = (output_arr d ! i)\<lparr>clkout_freq := rate\<rparr>"
    using i by (simp add: set_clkout_freq_def stack_push_def)
  have regs1: "man_regs ?d1 = man_regs d" "man_regs_stack ?d1 = man_regs d"
    by (simp_all add: set_clkout_freq_def stack_push_def)
  have np1: "\<not> precise (output_arr ?d1 ! i)" using np by (simp add: o)
  have id1: "id_u8 (output_arr ?d1 ! i) = id_u8 (output_arr d ! i)" by (simp add: o)
  have frame: "length (man_regs d') = length (man_regs d) \<and>
      (k \<noteq> 1 + unat (id_u8 (output_arr d ! i)) * 2 \<longrightarrow>
       k \<noteq> 2 + unat (id_u8 (output_arr d ! i)) * 2 \<longrightarrow> man_regs d' ! k = man_regs d ! k)"
    if c: "logiclk_calc_params ?d1 i = Some (r2, d2)"
      and fin: "d' = (if r2 \<noteq> 0 then stack_pop d2 i else d2)" for r2 d2
  proof (cases "r2 \<noteq> 0")
    case True
    have "d2 = ?d1"
      using c True unfolding calc_params_non_precise[OF np1]
      by (auto split: if_splits option.splits)
    then show ?thesis
      using fin True by (simp add: stack_pop_def regs1)
  next
    case False
    then obtain d1' where a: "man_reg_params_id_at ?d1 i = Some d1'" and d2: "d2 = d1'"
      using c unfolding calc_params_non_precise[OF np1]
      by (auto simp: EINVAL_def split: if_splits option.splits)
    show ?thesis
      using man_reg_params_id_at_frame(1)[OF a] man_reg_params_id_at_frame(2)[OF a, of k]
        fin False
      by (simp add: d2 id1 regs1)
  qed
  have "length (man_regs d') = length (man_regs d) \<and>
      (k \<noteq> 1 + unat (id_u8 (output_arr d ! i)) * 2 \<longrightarrow>
       k \<noteq> 2 + unat (id_u8 (output_arr d ! i)) * 2 \<longrightarrow> man_regs d' ! k = man_regs d ! k)"
    using res
  proof
    assume "logiclk_round_rate d i rate = Some (ret, d')"
    then obtain r2 d2 where "logiclk_calc_params ?d1 i = Some (r2, d2)"
      "d' = (if r2 \<noteq> 0 then stack_pop d2 i else d2)"
      by (auto simp: logiclk_round_rate_def Let_def split: option.splits if_splits)
    then show ?thesis by (rule frame)
  next
    assume s: "logiclk_set_rate lock_at d i rate = Some (ret, d')"
    show ?thesis
    proof (cases "rate \<noteq> clkout_freq (output_arr d ! i)")
      case True
      then obtain r2 d2 where "logiclk_calc_params ?d1 i = Some (r2, d2)"
        "d' = (if r2 \<noteq> 0 then stack_pop d2 i else d2)"
        using s by (auto simp: logiclk_set_rate_def Let_def split: option.splits if_splits)
      then show ?thesis by (rule frame)
    next
      case False
      then have "d' = d" using s by (simp add: logiclk_set_rate_def)
      then show ?thesis by simp
    qed
  qed
  then show "length (man_regs d') = length (man_regs d)"
    and "k \<noteq> 1 + unat (id_u8 (output_arr d ! i)) * 2 \<Longrightarrow>
         k \<noteq> 2 + unat (id_u8 (output_arr d ! i)) * 2 \<Longrightarrow> man_regs d' ! k = man_regs d ! k"
    by simp_all
qed

lemma rate_change_non_precise_some:
  assumes i: "i < length (output_arr d)" and np: "\<not> precise (output_arr d ! i)"
    and dz: "divclk_divide (input d) \<noteq> 0"
    and id: "unat (id_u8 (output_arr d ! i)) < LOGICLK_OUTPUTS"
  shows "logiclk_round_rate d i rate \<noteq> None"
    and "logiclk_set_rate lock_at d i rate \<noteq> None"
proof -
  let ?d1 = "set_clkout_freq (stack_push d i) i rate"
  have o: "output_arr ?d1 ! i = (output_arr d ! i)\<lparr>clkout_freq := rate\<rparr>"
    using i by (simp add: set_clkout_freq_def stack_push_def)
  have inp: "input ?d1 = input d"
    by (simp add: set_clkout_freq_def stack_push_def)
  have np1: "\<not> precise (output_arr ?d1 ! i)" using np by (simp add: o)
  have "unat (id_u8 (output_arr ?d1 ! i)) < 2 ^ 8"
    using unsigned_less[of "id_u8 (output_arr ?d1 ! i)"] by simp
  then have u: "unat (ucast (id_u8 (output_arr ?d1 ! i)) :: u32) = unat (id_u8 (output_arr d ! i))"
    by (simp add: unsigned_ucast_eq take_bit_nat_eq_self o)
  have "unat (ucast (id_u8 (output_arr ?d1 ! i)) :: u32) < 10"
    unfolding u using id by (simp add: LOGICLK_OUTPUTS_def)
  from man_reg_params_id_some[OF _ this, of "input ?d1" "output_arr ?d1 ! i" "man_regs ?d1"]
  have "man_reg_params_id_at ?d1 i \<noteq> None"
    using dz by (auto simp: man_reg_params_id_at_def inp)
  then have c: "logiclk_calc_params ?d1 i \<noteq> None"
    unfolding calc_params_non_precise[OF np1] by (auto split: option.splits)
  show "logiclk_round_rate d i rate \<noteq> None"
    using c by (auto simp: logiclk_round_rate_def Let_def split: option.splits)
  show "logiclk_set_rate lock_at d i rate \<noteq> None"
    using c by (auto simp: logiclk_set_rate_def Let_def split: option.splits)
qed

text \<open>
  \<^bold>\<open>C4.\<close> A Propose (\<^verbatim>\<open>logiclk_round_rate\<close>) or Commit (\<^verbatim>\<open>logiclk_set_rate\<close>) on a channel
  that is not the precise one leaves \<^verbatim>\<open>man_regs[0]\<close> and \<^verbatim>\<open>man_regs[13..20]\<close> unchanged:
  the only registers it can write are that channel's own pair at \<open>1 + 2 \<times> id\<close> and
  \<open>2 + 2 \<times> id\<close>. With a pre-divider that is not zero both operations return.
  Recompute (\<^verbatim>\<open>logiclk_recalc_rate\<close>) is not among them: it calls
  \<^verbatim>\<open>logiclk_man_reg_params\<close> on every channel.
\<close>

theorem rate_change_keeps_shared_registers:
  assumes "i < length (output_arr d)" and "\<not> precise (output_arr d ! i)"
    and "unat (id_u8 (output_arr d ! i)) < LOGICLK_OUTPUTS"
  shows "(divclk_divide (input d) \<noteq> 0 \<longrightarrow>
            logiclk_round_rate d i rate \<noteq> None \<and> logiclk_set_rate lock_at d i rate \<noteq> None) \<and>
         (logiclk_round_rate d i rate = Some (ret, d') \<or>
          logiclk_set_rate lock_at d i rate = Some (ret, d') \<longrightarrow>
            length (man_regs d') = length (man_regs d) \<and>
            man_regs d' ! 0 = man_regs d ! 0 \<and>
            (\<forall>k. 13 \<le> k \<longrightarrow> man_regs d' ! k = man_regs d ! k) \<and>
            (\<forall>k. k \<noteq> 1 + 2 * unat (id_u8 (output_arr d ! i)) \<and>
                 k \<noteq> 2 + 2 * unat (id_u8 (output_arr d ! i)) \<longrightarrow>
                 man_regs d' ! k = man_regs d ! k))"
proof (intro conjI impI allI)
  assume "divclk_divide (input d) \<noteq> 0"
  then show "logiclk_round_rate d i rate \<noteq> None" "logiclk_set_rate lock_at d i rate \<noteq> None"
    using assms by (simp_all add: rate_change_non_precise_some)
next
  assume res: "logiclk_round_rate d i rate = Some (ret, d') \<or>
          logiclk_set_rate lock_at d i rate = Some (ret, d')"
  note fr = rate_change_non_precise[OF assms(1) assms(2) res]
  have id: "unat (id_u8 (output_arr d ! i)) < 6"
    using assms(3) by (simp add: LOGICLK_OUTPUTS_def)
  show "length (man_regs d') = length (man_regs d)" by (rule fr(1))
  show "man_regs d' ! 0 = man_regs d ! 0" by (rule fr(2)) simp_all
  show "man_regs d' ! k = man_regs d ! k" if "13 \<le> k" for k
    using that id by (intro fr(2)) simp_all
  show "man_regs d' ! k = man_regs d ! k"
    if "k \<noteq> 1 + 2 * unat (id_u8 (output_arr d ! i)) \<and>
        k \<noteq> 2 + 2 * unat (id_u8 (output_arr d ! i))" for k
    using that by (intro fr(2)) simp_all
qed

theorem rate_change_keeps_shared_registers_witness:
  "1 < length (output_arr ex_data) \<and> \<not> precise (output_arr ex_data ! 1) \<and>
   unat (id_u8 (output_arr ex_data ! 1)) < LOGICLK_OUTPUTS \<and>
   divclk_divide (input ex_data) \<noteq> 0 \<and>
   logiclk_round_rate ex_data 1 50000000 \<noteq> None \<and>
   man_regs (snd (the (logiclk_round_rate ex_data 1 50000000))) ! 0 = man_regs ex_data ! 0 \<and>
   man_regs (snd (the (logiclk_round_rate ex_data 1 50000000))) ! 13 = man_regs ex_data ! 13"
proof -
  have h: "1 < length (output_arr ex_data)" "\<not> precise (output_arr ex_data ! 1)"
    "unat (id_u8 (output_arr ex_data ! 1)) < LOGICLK_OUTPUTS"
    and dz: "divclk_divide (input ex_data) \<noteq> 0"
    by (simp_all add: ex_data_def ex_channel_def ex_input_def LOGICLK_OUTPUTS_def)
  have ne: "logiclk_round_rate ex_data 1 50000000 \<noteq> None"
    using rate_change_keeps_shared_registers[OF h, of 50000000 "\<lambda>k. True"] dz by blast
  then obtain ret d' where r: "logiclk_round_rate ex_data 1 50000000 = Some (ret, d')"
    by (cases "logiclk_round_rate ex_data 1 50000000") auto
  have sel: "snd (the (logiclk_round_rate ex_data 1 50000000)) = d'"
    by (simp only: r option.sel snd_conv)
  have k: "man_regs d' ! 0 = man_regs ex_data ! 0" "man_regs d' ! 13 = man_regs ex_data ! 13"
    using rate_change_keeps_shared_registers[OF h, of 50000000 "\<lambda>k. True" ret d'] r
    by simp_all
  show ?thesis
    unfolding sel by (intro conjI h dz ne k)
qed

lemma man_reg_params_some:
  assumes "2 \<le> clkfbout_mult inp" "clkfbout_mult inp \<le> 64" "0 < length regs"
  shows "\<exists>r. logiclk_man_reg_params inp outp regs = Some r \<and> r ! 0 = 0xFFFF"
  using assms lut_index(1)[OF assms(1,2), of "bw_high inp"] lut_index(2)[OF assms(1,2)]
  by (simp add: logiclk_man_reg_params_def Let_def)

lemma recalc_rate_rewrites_enable:
  assumes i: "i < length (output_arr d)"
    and f: "clkout_freq (output_arr d ! i) \<noteq> 0"
    and m: "2 \<le> clkfbout_mult (input d)" "clkfbout_mult (input d) \<le> 64"
    and dz: "divclk_divide (input d) \<noteq> 0"
    and id: "unat (id_u8 (output_arr d ! i)) < LOGICLK_OUTPUTS"
    and len: "0 < length (man_regs d)"
  shows "logiclk_recalc_rate d i \<noteq> None \<and>
         man_regs (snd (the (logiclk_recalc_rate d i))) ! 0 = 0xFFFF"
proof -
  let ?o = "output_arr d ! i"
  obtain r1 where r1: "logiclk_man_reg_params (input d) ?o (man_regs d) = Some r1"
    and e: "r1 ! 0 = 0xFFFF"
    using man_reg_params_some[OF m len, of ?o] by blast
  have "unat (id_u8 ?o) < 2 ^ 8"
    using unsigned_less[of "id_u8 ?o"] by simp
  then have u: "unat (ucast (id_u8 ?o) :: u32) = unat (id_u8 ?o)"
    by (simp add: unsigned_ucast_eq take_bit_nat_eq_self)
  have "unat (ucast (id_u8 ?o) :: u32) < 10"
    unfolding u using id by (simp add: LOGICLK_OUTPUTS_def)
  from man_reg_params_id_some[OF dz this, of ?o r1]
  obtain o2 r2 where r2: "logiclk_man_reg_params_id (input d) ?o (ucast (id_u8 ?o)) r1 = Some (o2, r2)"
    by auto
  have "r2 ! 0 = r1 ! 0"
    by (rule man_reg_params_id_frame(2)[OF r2]) simp_all
  then have "r2 ! 0 = 0xFFFF" using e by simp
  moreover have "logiclk_recalc_rate d i =
      Some (clkout_freq o2, d\<lparr>output_arr := (output_arr d)[i := o2], man_regs := r2\<rparr>)"
    using f by (simp add: logiclk_recalc_rate_def Let_def r1 r2)
  ultimately show ?thesis by simp
qed

text \<open>Recompute on channel 1 of the example device, which is not the precise one, writes
  the enable mask into register 0.\<close>

theorem recalc_rate_rewrites_shared_registers:
  "\<not> precise (output_arr ex_data ! 1) \<and> logiclk_recalc_rate ex_data 1 \<noteq> None \<and>
   man_regs (snd (the (logiclk_recalc_rate ex_data 1))) ! 0 = 0xFFFF \<and>
   man_regs ex_data ! 0 = 0"
proof -
  have "logiclk_recalc_rate ex_data 1 \<noteq> None \<and>
         man_regs (snd (the (logiclk_recalc_rate ex_data 1))) ! 0 = 0xFFFF"
    by (rule recalc_rate_rewrites_enable)
      (simp_all add: ex_data_def ex_channel_def ex_input_def LOGICLK_OUTPUTS_def)
  then show ?thesis by (simp add: ex_data_def ex_channel_def)
qed

section \<open>When the full search can fail\<close>




section \<open>Rollback of a failed rate change\<close>




end
